theory Spec2Isabelle
  imports Complex_Main "HOL-Library.AList" "HOL-Library.Multiset" "HOL-Library.Log_Nat"
    "HOL-Library.Char_ord" "HOL-Library.List_Lexorder"
begin

section \<open>The aggregation store of hstat (store/store.go)\<close>

text \<open>
  The store keeps a sequence of parsed log entries together with count tables derived
  from it. This theory embeds the store's operations as HOL functions and settles the
  properties the design document states about them.

  Conventions of the embedding:
  \<^item> Go's \<open>int\<close> (64 bits wide on the platforms the program is built for) and \<open>int64\<close>
    values are HOL integers; every addition and subtraction
    the source performs on them goes through \<open>wrap64\<close>, the two's-complement wrap-around
    of a 64-bit signed integer. Loop counters that are bounded by the length of a slice
    (\<open>timingCount\<close>, \<open>recentTotal\<close>, \<open>total\<close> in the path scan) cannot wrap and are plain
    numbers.
  \<^item> A \<open>time.Time\<close> is an integer count of nanoseconds on the time line; \<open>t.Add(d)\<close> is
    \<open>t + d\<close> and \<open>t.After(u)\<close> is \<open>u < t\<close>. A \<open>time.Duration\<close> is an \<open>int64\<close> count of
    nanoseconds: the negations \<open>-s.window\<close> and \<open>-period\<close> and the product \<open>-2 * period\<close>
    that the source computes go through \<open>wrap64\<close>. The reading of the clock,
    \<open>time.Now()\<close>, is a parameter \<open>now\<close> of every operation that consults it. The
    saturation of the time library at the ends of its range is not modelled.
  \<^item> A Go map is an association list with distinct keys. The order of the list stands
    for the order in which a \<open>range\<close> loop visits the map, which Go leaves unspecified:
    two lists with the same pairs are the same map, visited differently.
  \<^item> A \<open>float64\<close> is the rational number it denotes, and every floating-point operation
    rounds its exact result to the nearest \<open>float64\<close>.
  \<^item> A run-time panic is the value \<open>Inl\<close> of a sum type (or \<open>None\<close>); a nil slice or
    nil map is \<open>None\<close>, a non-nil one \<open>Some\<close>.
  \<^item> The reader/writer lock is not modelled: every operation holds it for its whole
    body, so operations are atomic steps on the state.
\<close>

subsection \<open>Machine integers\<close>

definition wrap64 :: "int \<Rightarrow> int" where
  "wrap64 x = (x + 2 ^ 63) mod 2 ^ 64 - 2 ^ 63"

text \<open>Go's \<open>/\<close> on integers truncates towards zero.\<close>

definition quo :: "int \<Rightarrow> int \<Rightarrow> int" where
  "quo a b = (if (a < 0) = (b < 0) then \<bar>a\<bar> div \<bar>b\<bar> else - (\<bar>a\<bar> div \<bar>b\<bar>))"

text \<open>The running sum \<open>sum += t\<close> of a loop over a slice of integers.\<close>

definition sum64 :: "int list \<Rightarrow> int" where
  "sum64 xs = foldl (\<lambda>acc t. wrap64 (acc + t)) 0 xs"

subsection \<open>Data model\<close>

record Entry =
  Timestamp :: int
  Status :: int
  Service :: int
  Connect :: int
  Host :: string
  Path :: string
  IP :: string

type_synonym 'k counts = "('k \<times> int) list"

record Store =
  entries :: "Entry list"
  window :: int
  TotalCount :: int
  StatusCounts :: "int counts"
  HostCounts :: "string counts"
  IPCounts :: "string counts"
  serviceTimes :: "int list"
  connectTimes :: "int list"
  hostToIPs :: "(string \<times> string counts) list"
  ipToHosts :: "(string \<times> string counts) list"
  hostToStatus :: "(string \<times> int counts) list"
  ipToStatus :: "(string \<times> int counts) list"
  hostToPaths :: "(string \<times> string counts) list"
  ipToPaths :: "(string \<times> string counts) list"

definition maxEntries :: int where
  "maxEntries = 100000"

definition excludedPaths :: "string list" where
  "excludedPaths = [''/ahoy/events'', ''/ahoy/visits'', ''/robots.txt'']"

definition excludedPathPrefixes :: "string list" where
  "excludedPathPrefixes = [''/system-status-'', ''/hirefire'']"

definition HasPrefix :: "string \<Rightarrow> string \<Rightarrow> bool" where
  "HasPrefix s p = (take (length p) s = p)"

definition isExcludedPath :: "string \<Rightarrow> bool" where
  "isExcludedPath path =
     (if list_ex (\<lambda>excluded. path = excluded) excludedPaths then True
      else if list_ex (\<lambda>p. HasPrefix path p) excludedPathPrefixes then True
      else False)"

subsection \<open>Map cells\<close>

text \<open>\<open>m[k]\<close> reads the zero value for a missing key.\<close>

definition cell :: "'k counts \<Rightarrow> 'k \<Rightarrow> int" where
  "cell m k = (case map_of m k of None \<Rightarrow> 0 | Some v \<Rightarrow> v)"

text \<open>\<open>m[k]++\<close> and \<open>m[k]--\<close>: a missing key is created.\<close>

definition incr :: "'k \<Rightarrow> 'k counts \<Rightarrow> 'k counts" where
  "incr k m = AList.update k (wrap64 (cell m k + 1)) m"

definition decr :: "'k \<Rightarrow> 'k counts \<Rightarrow> 'k counts" where
  "decr k m = AList.update k (wrap64 (cell m k - 1)) m"

text \<open>
  \<open>if m[a] == nil { m[a] = make(...) }; m[a][b]++\<close> on a nested table, and the guarded
  decrement \<open>if m[a] != nil { m[a][b]-- }\<close>.
\<close>

definition incr2 :: "'a \<Rightarrow> 'b \<Rightarrow> ('a \<times> 'b counts) list \<Rightarrow> ('a \<times> 'b counts) list" where
  "incr2 a b m =
     AList.update a (incr b (case map_of m a of None \<Rightarrow> [] | Some inner \<Rightarrow> inner)) m"

definition decr2 :: "'a \<Rightarrow> 'b \<Rightarrow> ('a \<times> 'b counts) list \<Rightarrow> ('a \<times> 'b counts) list" where
  "decr2 a b m =
     (case map_of m a of None \<Rightarrow> m | Some inner \<Rightarrow> AList.update a (decr b inner) m)"

definition orUnknown :: "string \<Rightarrow> string" where
  "orUnknown s = (if s = [] then ''(unknown)'' else s)"

subsection \<open>New, Add, Prune and pruneOldest\<close>

definition New :: "int \<Rightarrow> Store" where
  "New w = \<lparr> entries = [], window = w, TotalCount = 0, StatusCounts = [],
     HostCounts = [], IPCounts = [], serviceTimes = [], connectTimes = [],
     hostToIPs = [], ipToHosts = [], hostToStatus = [], ipToStatus = [],
     hostToPaths = [], ipToPaths = [] \<rparr>"

text \<open>The body of the loop of \<open>pruneOldest\<close> for one evicted entry, without the sample count.\<close>

definition evict :: "Entry \<Rightarrow> Store \<Rightarrow> Store" where
  "evict e s =
     (let host = orUnknown (Host e); ip = orUnknown (IP e); path = orUnknown (Path e) in
      s\<lparr> TotalCount := wrap64 (TotalCount s - 1),
         StatusCounts := decr (Status e) (StatusCounts s),
         HostCounts := decr host (HostCounts s),
         IPCounts := decr ip (IPCounts s),
         hostToIPs := decr2 host ip (hostToIPs s),
         ipToHosts := decr2 ip host (ipToHosts s),
         hostToStatus := decr2 host (Status e) (hostToStatus s),
         ipToStatus := decr2 ip (Status e) (ipToStatus s),
         hostToPaths := decr2 host path (hostToPaths s),
         ipToPaths := decr2 ip path (ipToPaths s) \<rparr>)"

fun pruneLoop :: "Entry list \<Rightarrow> Store \<Rightarrow> nat \<Rightarrow> Store \<times> nat" where
  "pruneLoop [] s timingCount = (s, timingCount)"
| "pruneLoop (e # es) s timingCount =
     pruneLoop es (evict e s) (if Status e \<noteq> 101 then timingCount + 1 else timingCount)"

text \<open>
  The slice expression \<open>xs[k:]\<close> panics when \<open>k\<close> exceeds the length of \<open>xs\<close>; the
  model returns \<open>None\<close> there.
\<close>

definition pruneOldest :: "int \<Rightarrow> Store \<Rightarrow> Store option" where
  "pruneOldest cnt s =
     (if cnt \<le> 0 \<or> cnt > int (length (entries s)) then Some s
      else
        (case pruneLoop (take (nat cnt) (entries s)) s 0 of
           (s', timingCount) \<Rightarrow>
             if timingCount > length (serviceTimes s') then None
             else if timingCount > length (connectTimes s') then None
             else Some (s'\<lparr> entries := drop (nat cnt) (entries s'),
                            serviceTimes := drop timingCount (serviceTimes s'),
                            connectTimes := drop timingCount (connectTimes s') \<rparr>)))"

text \<open>The part of \<open>Add\<close> before the capacity check.\<close>

definition record_entry :: "Entry \<Rightarrow> Store \<Rightarrow> Store" where
  "record_entry e s =
     (let host = orUnknown (Host e); ip = orUnknown (IP e); path = orUnknown (Path e) in
      s\<lparr> entries := entries s @ [e],
         TotalCount := wrap64 (TotalCount s + 1),
         StatusCounts := incr (Status e) (StatusCounts s),
         HostCounts := incr host (HostCounts s),
         IPCounts := incr ip (IPCounts s),
         serviceTimes := (if Status e \<noteq> 101 then serviceTimes s @ [Service e]
                          else serviceTimes s),
         connectTimes := (if Status e \<noteq> 101 then connectTimes s @ [Connect e]
                          else connectTimes s),
         hostToIPs := incr2 host ip (hostToIPs s),
         ipToHosts := incr2 ip host (ipToHosts s),
         hostToStatus := incr2 host (Status e) (hostToStatus s),
         ipToStatus := incr2 ip (Status e) (ipToStatus s),
         hostToPaths := incr2 host path (hostToPaths s),
         ipToPaths := incr2 ip path (ipToPaths s) \<rparr>)"

text \<open>\<open>Add\<close> takes a pointer; \<open>None\<close> is the nil pointer.\<close>

fun Add :: "Entry option \<Rightarrow> Store \<Rightarrow> Store option" where
  "Add None s = Some s"
| "Add (Some e) s =
     (let s1 = record_entry e s in
      if int (length (entries s1)) > maxEntries
      then pruneOldest (int (length (entries s1)) - maxEntries) s1
      else Some s1)"

text \<open>
  The scan of \<open>Prune\<close>: the index of the first entry whose timestamp is after the
  cutoff, and 0 (the initial value of \<open>pruneCount\<close>) when the loop ends without a
  \<open>break\<close>.
\<close>

fun pruneScan :: "int \<Rightarrow> Entry list \<Rightarrow> nat \<Rightarrow> nat" where
  "pruneScan cutoff [] i = 0"
| "pruneScan cutoff (e # es) i =
     (if cutoff < Timestamp e then i else pruneScan cutoff es (i + 1))"

definition Prune :: "int \<Rightarrow> Store \<Rightarrow> Store option" where
  "Prune now s =
     (if window s = 0 then Some s
      else
        (let cutoff = now + wrap64 (- window s);
             pruneCount = pruneScan cutoff (entries s) 0
         in if pruneCount > 0 then pruneOldest (int pruneCount) s else Some s))"

text \<open>A sequence of calls on a store; a panic ends the run.\<close>

datatype call = AddCall "Entry option" | PruneCall int

fun step :: "call \<Rightarrow> Store \<Rightarrow> Store option" where
  "step (AddCall e) s = Add e s"
| "step (PruneCall now) s = Prune now s"

fun run :: "call list \<Rightarrow> Store \<Rightarrow> Store option" where
  "run [] s = Some s"
| "run (c # cs) s = (case step c s of None \<Rightarrow> None | Some s' \<Rightarrow> run cs s')"

subsection \<open>Ranking queries\<close>

record CountItem =
  Label :: string
  Count :: int

datatype panic = SliceBoundsOutOfRange

text \<open>
  \<open>sort.Slice(items, less)\<close>. The library sorts slices of at most twelve elements by
  insertion from the left, moving each element towards the front while \<open>less\<close> holds
  between it and its predecessor; \<open>sift\<close> does that on the reversed prefix. For longer
  slices the library switches to another algorithm, which may order elements that
  \<open>less\<close> does not separate differently; the theorems below rely only on the result
  being a permutation of the input in which no element is \<open>less\<close> than an earlier one.
\<close>

fun sift :: "('a \<Rightarrow> 'a \<Rightarrow> bool) \<Rightarrow> 'a \<Rightarrow> 'a list \<Rightarrow> 'a list" where
  "sift lt x [] = [x]"
| "sift lt x (y # ys) = (if lt x y then y # sift lt x ys else x # y # ys)"

definition sortSlice :: "('a \<Rightarrow> 'a \<Rightarrow> bool) \<Rightarrow> 'a list \<Rightarrow> 'a list" where
  "sortSlice lt xs = rev (foldl (\<lambda>sorted_prefix x. sift lt x sorted_prefix) [] xs)"

definition positiveItems :: "string counts \<Rightarrow> CountItem list" where
  "positiveItems counts =
     map (\<lambda>(label, cnt). \<lparr>Label = label, Count = cnt\<rparr>)
       (filter (\<lambda>(label, cnt). cnt > 0) counts)"

fun topN :: "string counts option \<Rightarrow> int \<Rightarrow> panic + CountItem list option" where
  "topN None n = Inr None"
| "topN (Some counts) n =
     (let items = sortSlice (\<lambda>a b. Count a > Count b) (positiveItems counts) in
      if int (length items) > n
      then (if n < 0 then Inl SliceBoundsOutOfRange else Inr (Some (take (nat n) items)))
      else Inr (Some items))"

definition GetTopHosts :: "int \<Rightarrow> string \<Rightarrow> Store \<Rightarrow> panic + CountItem list option" where
  "GetTopHosts n filterIP s =
     topN (if filterIP \<noteq> [] then map_of (ipToHosts s) filterIP else Some (HostCounts s)) n"

definition GetTopIPs :: "int \<Rightarrow> string \<Rightarrow> Store \<Rightarrow> panic + CountItem list option" where
  "GetTopIPs n filterHost s =
     topN (if filterHost \<noteq> [] then map_of (hostToIPs s) filterHost else Some (IPCounts s)) n"

text \<open>Ranging over a nil map visits nothing.\<close>

definition rangeOf :: "'k counts option \<Rightarrow> 'k counts" where
  "rangeOf m = (case m of None \<Rightarrow> [] | Some kvs \<Rightarrow> kvs)"

definition GetTopPaths ::
  "int \<Rightarrow> string \<Rightarrow> string \<Rightarrow> Store \<Rightarrow> panic + CountItem list option" where
  "GetTopPaths n host ip s =
     (if host \<noteq> [] then
        topN (Some (filter (\<lambda>(path, cnt). \<not> isExcludedPath path)
                      (rangeOf (map_of (hostToPaths s) host)))) n
      else if ip \<noteq> [] then
        topN (Some (filter (\<lambda>(path, cnt). \<not> isExcludedPath path)
                      (rangeOf (map_of (ipToPaths s) ip)))) n
      else Inr None)"

text \<open>\<open>pathCounts[path] += count\<close>.\<close>

definition addTo :: "'k \<Rightarrow> int \<Rightarrow> 'k counts \<Rightarrow> 'k counts" where
  "addTo k c m = AList.update k (wrap64 (cell m k + c)) m"

definition GetAllPaths :: "int \<Rightarrow> Store \<Rightarrow> panic + CountItem list option" where
  "GetAllPaths n s =
     topN (Some (foldl (\<lambda>pathCounts (path, cnt).
                          if cnt > 0 \<and> \<not> isExcludedPath path
                          then addTo path cnt pathCounts else pathCounts)
                   [] (concat (map snd (hostToPaths s))))) n"

definition GetOtherCount :: "string counts \<Rightarrow> CountItem list \<Rightarrow> int" where
  "GetOtherCount counts topItems =
     (let topSet = set (map Label topItems) in
      foldl (\<lambda>other (label, cnt).
               if label \<notin> topSet \<and> cnt > 0 then wrap64 (other + cnt) else other)
        0 counts)"

subsection \<open>float64 arithmetic\<close>

text \<open>
  A \<open>float64\<close> is the rational number it denotes. Every conversion, product, quotient and
  difference the source computes is rounded to the nearest number with a 53-bit
  significand, ties to the even significand (IEEE 754 binary64, the only rounding Go
  uses). The rates of the store lie between \<open>2\<^sup>-\<^sup>6\<^sup>4\<close> and \<open>2\<^sup>7\<^sup>1\<close> in magnitude or are zero, so the
  exponent range of the format never comes into play and is not modelled.
\<close>

definition pow2 :: "int \<Rightarrow> rat" where
  "pow2 k = (if k \<ge> 0 then 2 ^ nat k else 1 / 2 ^ nat (- k))"

text \<open>The exponent \<open>e\<close> with \<open>2\<^sup>e \<le> a < 2\<^sup>e\<^sup>+\<^sup>1\<close> of a positive rational.\<close>

definition exponent :: "rat \<Rightarrow> int" where
  "exponent a =
     (case quotient_of a of (p, q) \<Rightarrow>
        (let d = bitlen p - bitlen q in if pow2 d \<le> a then d else d - 1))"

definition float64 :: "rat \<Rightarrow> rat" where
  "float64 x =
     (if x = 0 then 0
      else
        (let a = \<bar>x\<bar>;
             ulp = pow2 (exponent a - 52);
             q = a / ulp;
             m = \<lfloor>q\<rfloor>;
             r = q - of_int m;
             m' = (if r < 1 / 2 then m
                   else if r > 1 / 2 then m + 1
                   else if even m then m else m + 1)
         in sgn x * of_int m' * ulp))"

definition fdiv :: "rat \<Rightarrow> rat \<Rightarrow> rat" where
  "fdiv a b = float64 (a / b)"

definition fmul :: "rat \<Rightarrow> rat \<Rightarrow> rat" where
  "fmul a b = float64 (a * b)"

definition fsub :: "rat \<Rightarrow> rat \<Rightarrow> rat" where
  "fsub a b = float64 (a - b)"

text \<open>The conversion \<open>float64(n)\<close> of an \<open>int64\<close>.\<close>

definition ofInt64 :: "int \<Rightarrow> rat" where
  "ofInt64 n = float64 (of_int n)"

subsection \<open>Statistics\<close>

record Stats =
  StatsTotalCount :: int
  AvgService :: int
  P50Service :: int
  P95Service :: int
  P99Service :: int
  MaxService :: int
  AvgConnect :: int
  MaxConnect :: int

definition maxLoop :: "int list \<Rightarrow> int" where
  "maxLoop ts = foldl (\<lambda>maxConn t. if t > maxConn then t else maxConn) 0 ts"

definition GetStats :: "Store \<Rightarrow> Stats" where
  "GetStats s =
     (let stats = \<lparr> StatsTotalCount = TotalCount s, AvgService = 0, P50Service = 0,
                     P95Service = 0, P99Service = 0, MaxService = 0, AvgConnect = 0,
                     MaxConnect = 0 \<rparr>
      in if length (serviceTimes s) = 0 then stats
         else
           (let times = sort (serviceTimes s);
                len = length times;
                p99idx = len * 99 div 100;
                p99idx = (if p99idx \<ge> len then len - 1 else p99idx);
                stats = stats\<lparr> AvgService := quo (sum64 times) (int len),
                               P50Service := times ! (len * 50 div 100),
                               P95Service := times ! (len * 95 div 100),
                               P99Service := times ! p99idx,
                               MaxService := times ! (len - 1) \<rparr>
            in if length (connectTimes s) > 0
               then stats\<lparr> AvgConnect :=
                               quo (sum64 (connectTimes s)) (int (length (connectTimes s))),
                             MaxConnect := maxLoop (connectTimes s) \<rparr>
               else stats))"

subsection \<open>Error rates\<close>

record ErrorRates =
  Rate4xx :: rat
  Rate5xx :: rat

definition GetErrorRates :: "Store \<Rightarrow> rat \<times> rat" where
  "GetErrorRates s =
     (if TotalCount s = 0 then (0, 0)
      else
        (case foldl (\<lambda>(count4xx, count5xx) (status, cnt).
                       if status \<ge> 400 \<and> status < 500 then (wrap64 (count4xx + cnt), count5xx)
                       else if status \<ge> 500 \<and> status < 600
                       then (count4xx, wrap64 (count5xx + cnt))
                       else (count4xx, count5xx))
                (0, 0) (StatusCounts s) of
           (count4xx, count5xx) \<Rightarrow>
             (fdiv (fmul (ofInt64 count4xx) 100) (ofInt64 (TotalCount s)),
              fdiv (fmul (ofInt64 count5xx) 100) (ofInt64 (TotalCount s)))))"

text \<open>The three counters of the loop of \<open>calculateErrorRates\<close>.\<close>

definition tally :: "int counts \<Rightarrow> int \<times> int \<times> int" where
  "tally statusCounts =
     foldl (\<lambda>(tot, count4xx, count5xx) (status, cnt).
              if cnt > 0 then
                (if status \<ge> 400 \<and> status < 500
                 then (wrap64 (tot + cnt), wrap64 (count4xx + cnt), count5xx)
                 else if status \<ge> 500
                 then (wrap64 (tot + cnt), count4xx, wrap64 (count5xx + cnt))
                 else (wrap64 (tot + cnt), count4xx, count5xx))
              else (tot, count4xx, count5xx))
       (0, 0, 0) statusCounts"

definition ratesOf :: "int \<times> int \<times> int \<Rightarrow> ErrorRates" where
  "ratesOf t =
     (case t of (tot, count4xx, count5xx) \<Rightarrow>
        if tot = 0 then \<lparr>Rate4xx = 0, Rate5xx = 0\<rparr>
        else \<lparr>Rate4xx = fdiv (fmul (ofInt64 count4xx) 100) (ofInt64 tot),
              Rate5xx = fdiv (fmul (ofInt64 count5xx) 100) (ofInt64 tot)\<rparr>)"

definition calculateErrorRates :: "int counts option \<Rightarrow> ErrorRates" where
  "calculateErrorRates statusCounts =
     (case statusCounts of
        None \<Rightarrow> \<lparr>Rate4xx = 0, Rate5xx = 0\<rparr>
      | Some m \<Rightarrow> ratesOf (tally m))"

definition GetErrorRatesForHost :: "string \<Rightarrow> Store \<Rightarrow> ErrorRates" where
  "GetErrorRatesForHost host s = calculateErrorRates (map_of (hostToStatus s) host)"

definition GetErrorRatesForIP :: "string \<Rightarrow> Store \<Rightarrow> ErrorRates" where
  "GetErrorRatesForIP ip s = calculateErrorRates (map_of (ipToStatus s) ip)"

text \<open>The three counters of the loop of \<open>GetErrorRatesForPath\<close>.\<close>

definition pathTally :: "string \<Rightarrow> Entry list \<Rightarrow> int \<times> int \<times> int" where
  "pathTally path es =
     foldl (\<lambda>(tot, count4xx, count5xx) e.
              if orUnknown (Path e) = path then
                (if Status e \<ge> 400 \<and> Status e < 500 then (tot + 1, count4xx + 1, count5xx)
                 else if Status e \<ge> 500 then (tot + 1, count4xx, count5xx + 1)
                 else (tot + 1, count4xx, count5xx))
              else (tot, count4xx, count5xx))
       (0, 0, 0) es"

definition GetErrorRatesForPath :: "string \<Rightarrow> Store \<Rightarrow> ErrorRates" where
  "GetErrorRatesForPath path s = ratesOf (pathTally path (entries s))"

subsection \<open>Trend\<close>

datatype Trend = TrendStable | TrendUp | TrendDown

text \<open>The four counters of the loop of \<open>GetTrendWithDiff\<close>.\<close>

definition trendTally :: "int \<Rightarrow> int \<Rightarrow> Entry list \<Rightarrow> int \<times> int \<times> int \<times> int" where
  "trendTally recentCutoff oldCutoff es =
     foldl (\<lambda>(recentTotal, recentErrors, oldTotal, oldErrors) e.
              (let isError = (Status e \<ge> 400) in
               if recentCutoff < Timestamp e
               then (recentTotal + 1, (if isError then recentErrors + 1 else recentErrors),
                     oldTotal, oldErrors)
               else if oldCutoff < Timestamp e
               then (recentTotal, recentErrors,
                     oldTotal + 1, (if isError then oldErrors + 1 else oldErrors))
               else (recentTotal, recentErrors, oldTotal, oldErrors)))
       (0, 0, 0, 0) es"

definition GetTrendWithDiff :: "int \<Rightarrow> int \<Rightarrow> Store \<Rightarrow> rat \<times> Trend" where
  "GetTrendWithDiff now period s =
     (if length (entries s) = 0 then (0, TrendStable)
      else
        (let recentCutoff = now + wrap64 (- period);
             oldCutoff = now + wrap64 (- 2 * period)
         in case trendTally recentCutoff oldCutoff (entries s) of
              (recentTotal, recentErrors, oldTotal, oldErrors) \<Rightarrow>
                if recentTotal < 10 \<or> oldTotal < 10 then (0, TrendStable)
                else
                  (let recentRate = fdiv (ofInt64 recentErrors) (ofInt64 recentTotal);
                       oldRate = fdiv (ofInt64 oldErrors) (ofInt64 oldTotal);
                       diff = fsub recentRate oldRate
                   in if diff > float64 (2 / 100) then (diff, TrendUp)
                      else if diff < - float64 (2 / 100) then (diff, TrendDown)
                      else (diff, TrendStable))))"

definition GetTrend :: "int \<Rightarrow> int \<Rightarrow> Store \<Rightarrow> Trend" where
  "GetTrend now period s = snd (GetTrendWithDiff now period s)"

subsection \<open>Consistency of a store\<close>

text \<open>A count table \<open>m\<close> tallies the keys \<open>f e\<close> of the entries \<open>es\<close>: its cell for every key holds
  the number of entries with that key.\<close>

definition tallies :: "('a \<Rightarrow> 'k) \<Rightarrow> 'a list \<Rightarrow> 'k counts \<Rightarrow> bool" where
  "tallies f es m \<longleftrightarrow>
     distinct (map fst m) \<and> (\<forall>k. cell m k = int (count_list (map f es) k))"

text \<open>The aggregates of a store agree with a sequence of entries.\<close>

definition agg :: "Entry list \<Rightarrow> Store \<Rightarrow> bool" where
  "agg es s \<longleftrightarrow>
     TotalCount s = int (length es) \<and>
     tallies Status es (StatusCounts s) \<and>
     tallies (\<lambda>e. orUnknown (Host e)) es (HostCounts s)"

text \<open>The entries that carry latency samples.\<close>

definition timed :: "Entry list \<Rightarrow> Entry list" where
  "timed es = filter (\<lambda>e. Status e \<noteq> 101) es"

text \<open>The aggregates and the latency samples of a store agree with its entries.\<close>

definition coherent :: "Store \<Rightarrow> bool" where
  "coherent s \<longleftrightarrow>
     agg (entries s) s \<and>
     serviceTimes s = map Service (timed (entries s)) \<and>
     connectTimes s = map Connect (timed (entries s))"

text \<open>The invariant of every store reached from \<open>New\<close>.\<close>

definition wellformed :: "Store \<Rightarrow> bool" where
  "wellformed s \<longleftrightarrow> coherent s \<and> int (length (entries s)) \<le> maxEntries"

subsection \<open>The two periods of the trend\<close>

text \<open>
  The entries after the recent cutoff, the entries after the old cutoff and at or before the
  recent one, and the number of errors among some entries.
\<close>

definition recentBucket :: "int \<Rightarrow> Entry list \<Rightarrow> Entry list" where
  "recentBucket recentCutoff es = filter (\<lambda>e. recentCutoff < Timestamp e) es"

definition oldBucket :: "int \<Rightarrow> int \<Rightarrow> Entry list \<Rightarrow> Entry list" where
  "oldBucket recentCutoff oldCutoff es =
     filter (\<lambda>e. oldCutoff < Timestamp e \<and> Timestamp e \<le> recentCutoff) es"

definition errorsIn :: "Entry list \<Rightarrow> int" where
  "errorsIn es = int (length (filter (\<lambda>e. Status e \<ge> 400) es))"

text \<open>The trend computed from the two buckets that two cutoffs delimit.\<close>

definition bucketTrend :: "int \<Rightarrow> int \<Rightarrow> Entry list \<Rightarrow> Trend" where
  "bucketTrend recentCutoff oldCutoff es =
     (let recent = recentBucket recentCutoff es;
          old = oldBucket recentCutoff oldCutoff es
      in if length recent < 10 \<or> length old < 10 then TrendStable
         else
           (let recentRate = fdiv (ofInt64 (errorsIn recent)) (ofInt64 (int (length recent)));
                oldRate = fdiv (ofInt64 (errorsIn old)) (ofInt64 (int (length old)));
                diff = fsub recentRate oldRate
            in if diff > float64 (2 / 100) then TrendUp
               else if diff < - float64 (2 / 100) then TrendDown
               else TrendStable))"

subsection \<open>Path counts across hosts\<close>

text \<open>
  The count of a path over all hosts: the sum, in \<open>int64\<close>, of the positive counts the
  tables of \<open>hostToPaths\<close> hold for it, and nothing for a path on the deny list.
\<close>

definition pathTotal :: "Store \<Rightarrow> string \<Rightarrow> int" where
  "pathTotal s path =
     (if isExcludedPath path then 0
      else sum64 (map snd (filter (\<lambda>(p, cnt). p = path \<and> cnt > 0)
                             (concat (map snd (hostToPaths s))))))"

subsection \<open>Definitions that follow the wording of the design document\<close>

text \<open>
  The percentile \<open>p\<close> of a sample sequence as the design document words it: the value at
  index \<open>floor(len * p / 100)\<close> of the sorted sequence, clamped to \<open>len - 1\<close>.
\<close>

definition spec_percentile :: "int list \<Rightarrow> nat \<Rightarrow> int" where
  "spec_percentile xs p = sort xs ! min (length xs * p div 100) (length xs - 1)"

text \<open>
  A ranking as the design document asks for it: sorted by count descending, ties broken
  by label ascending.
\<close>

definition spec_ranked :: "CountItem list \<Rightarrow> bool" where
  "spec_ranked items =
     sorted_wrt (\<lambda>a b. Count a > Count b \<or> (Count a = Count b \<and> Label a < Label b)) items"

text \<open>
  The trend as the design document words it: buckets \<open>[now - period, now)\<close> and
  \<open>[now - 2 * period, now - period)\<close>, \<open>Up\<close> when the recent rate exceeds the old one by
  more than two percentage points, \<open>Down\<close> when it falls short by more than that.
\<close>

definition spec_trend :: "int \<Rightarrow> int \<Rightarrow> Entry list \<Rightarrow> Trend" where
  "spec_trend now period es =
     (let recent = filter (\<lambda>e. now - period \<le> Timestamp e \<and> Timestamp e < now) es;
          old = filter (\<lambda>e. now - 2 * period \<le> Timestamp e \<and> Timestamp e < now - period) es
      in if length recent < 10 \<or> length old < 10 then TrendStable
         else
           (let recentRate = (of_int (errorsIn recent) :: rat) / of_int (int (length recent));
                oldRate = (of_int (errorsIn old) :: rat) / of_int (int (length old))
            in if recentRate - oldRate > 2 / 100 then TrendUp
               else if oldRate - recentRate > 2 / 100 then TrendDown
               else TrendStable))"

subsection \<open>Concrete stores and count maps\<close>

text \<open>An entry with the given timestamp, status, service time, host, path and address.\<close>

definition entry :: "int \<Rightarrow> int \<Rightarrow> int \<Rightarrow> string \<Rightarrow> string \<Rightarrow> string \<Rightarrow> Entry" where
  "entry t st sv h p i =
     \<lparr>Timestamp = t, Status = st, Service = sv, Connect = 1, Host = h, Path = p, IP = i\<rparr>"

text \<open>The store that a sequence of calls leaves behind, starting from \<open>New w\<close>.\<close>

definition after :: "call list \<Rightarrow> int \<Rightarrow> Store" where
  "after calls w = (case run calls (New w) of Some s \<Rightarrow> s | None \<Rightarrow> New w)"

text \<open>
  Three requests with service times 10, 30 and 20 and one WebSocket upgrade (status 101)
  with service time 100000.
\<close>

definition scenario2 :: Store where
  "scenario2 = after [AddCall (Some (entry 0 200 10 ''a.com'' ''/'' ''1.1.1.1'')),
                      AddCall (Some (entry 0 200 30 ''a.com'' ''/'' ''1.1.1.1'')),
                      AddCall (Some (entry 0 200 20 ''a.com'' ''/'' ''1.1.1.1'')),
                      AddCall (Some (entry 0 101 100000 ''a.com'' ''/'' ''1.1.1.1''))] 0"

text \<open>
  Two requests whose service time is the largest \<open>int\<close>, which is what the parser stores
  for a log line whose \<open>service=\<close> field has more digits than an \<open>int\<close> holds.
\<close>

definition overflowing :: Store where
  "overflowing = after [AddCall (Some (entry 0 200 (2 ^ 63 - 1) ''a.com'' ''/'' ''1.1.1.1'')),
                        AddCall (Some (entry 0 200 (2 ^ 63 - 1) ''a.com'' ''/'' ''1.1.1.1''))] 0"

text \<open>Two hosts seen once each, \<open>b.com\<close> before \<open>a.com\<close>.\<close>

definition tied :: Store where
  "tied = after [AddCall (Some (entry 0 200 5 ''b.com'' ''/'' ''1.1.1.1'')),
                 AddCall (Some (entry 0 200 5 ''a.com'' ''/'' ''1.1.1.1''))] 0"

text \<open>Host \<open>b.com\<close> seen once, then host \<open>a.com\<close> twice.\<close>

definition ranked :: Store where
  "ranked = after [AddCall (Some (entry 0 200 5 ''b.com'' ''/'' ''1.1.1.1'')),
                   AddCall (Some (entry 0 200 5 ''a.com'' ''/'' ''1.1.1.1'')),
                   AddCall (Some (entry 0 200 5 ''a.com'' ''/'' ''1.1.1.1''))] 0"

text \<open>The host counts of the third scenario of the design document.\<close>

definition scenario3 :: "string counts" where
  "scenario3 = [(''a.com'', 10), (''b.com'', 5), (''c.com'', 3), (''d.com'', 2)]"

text \<open>A count map whose two positive values add up to \<open>2\<^sup>6\<^sup>3\<close>.\<close>

definition overfull :: "string counts" where
  "overfull = [(''a.com'', 2 ^ 63 - 1), (''b.com'', 1)]"

text \<open>A store with a window of 100 ns holding one request received at time 0.\<close>

definition stale :: Store where
  "stale = after [AddCall (Some (entry 0 200 5 ''a.com'' ''/'' ''1.1.1.1''))] 100"

text \<open>A store holding one request answered with status 600.\<close>

definition status600 :: Store where
  "status600 = after [AddCall (Some (entry 0 600 5 ''a.com'' ''/x'' ''1.1.1.1''))] 0"

text \<open>\<open>k\<close> requests received at time \<open>t\<close> and answered with status \<open>st\<close>.\<close>

definition requests :: "nat \<Rightarrow> int \<Rightarrow> int \<Rightarrow> Entry list" where
  "requests k t st = replicate k (entry t st 5 ''a.com'' ''/'' ''1.1.1.1'')"

text \<open>One \<open>Add\<close> call per entry.\<close>

definition addAll :: "Entry list \<Rightarrow> call list" where
  "addAll es = map (\<lambda>e. AddCall (Some e)) es"

text \<open>
  With \<open>now = 100\<close> and \<open>period = 10\<close>: ten failed requests received exactly at
  \<open>now - period\<close>, then ten good ones inside the recent period.
\<close>

definition boundary_entries :: "Entry list" where
  "boundary_entries = requests 10 90 500 @ requests 10 95 200"

definition boundary :: Store where
  "boundary = after (addAll boundary_entries) 0"

text \<open>
  With \<open>now = 100\<close> and \<open>period = 10\<close>: 25 requests in the old period, two of them
  failed (8 percent), then 10 in the recent period, one of them failed (10 percent).
\<close>

definition rounding_entries :: "Entry list" where
  "rounding_entries =
     requests 23 85 200 @ requests 2 85 500 @ requests 9 95 200 @ requests 1 95 404"

definition rounding :: Store where
  "rounding = after (addAll rounding_entries) 0"

text \<open>
  With \<open>now = 2\<^sup>6\<^sup>2 + 2\<close> and \<open>period = 2\<^sup>6\<^sup>2 + 1\<close>, a period of some 146 years: ten failed
  requests at time 0, inside the period before the recent one, then ten good ones
  inside the recent period.
\<close>

definition wrapped_entries :: "Entry list" where
  "wrapped_entries = requests 10 0 500 @ requests 10 (2 ^ 62) 200"

definition wrapped :: Store where
  "wrapped = after (addAll wrapped_entries) 0"

text \<open>
  The fifth scenario of the design document, in seconds with \<open>now = 60\<close>: ten requests
  45 s ago with one failure, ten requests 15 s ago with three failures.
\<close>

definition scenario5_entries :: "Entry list" where
  "scenario5_entries =
     requests 9 15 200 @ requests 1 15 500 @ requests 7 45 200 @ requests 3 45 500"

definition scenario5 :: Store where
  "scenario5 = after (addAll scenario5_entries) 0"

section \<open>Properties\<close>

subsection \<open>Count tables\<close>

lemma wrap64_id: "- (2 ^ 63) \<le> x \<Longrightarrow> x < 2 ^ 63 \<Longrightarrow> wrap64 x = x"
  by (simp add: wrap64_def)

lemma cell_update: "cell (AList.update k v m) k' = (if k' = k then v else cell m k')"
  by (simp add: cell_def update_conv')

lemma count_list_le_length: "count_list xs k \<le> length xs"
  by (induction xs) auto

lemma tallies_Nil: "tallies f [] []"
  by (simp add: tallies_def cell_def)

lemma tallies_incr:
  assumes "tallies f es m" and "length es < 2 ^ 62"
  shows "tallies f (es @ [e]) (incr (f e) m)"
proof -
  have c: "cell m (f e) = int (count_list (map f es) (f e))"
    using assms(1) by (simp add: tallies_def)
  have "count_list (map f es) (f e) \<le> length es"
    using count_list_le_length [of "map f es" "f e"] by simp
  then have "cell m (f e) + 1 < 2 ^ 63" and "- (2 ^ 63) \<le> cell m (f e) + 1"
    using assms(2) c by simp_all
  then have w: "wrap64 (cell m (f e) + 1) = cell m (f e) + 1"
    by (simp add: wrap64_id)
  show ?thesis
    using assms(1) w
    by (simp add: tallies_def incr_def cell_update distinct_update)
qed

lemma tallies_decr:
  assumes "tallies f (e # es) m" and "length es < 2 ^ 62"
  shows "tallies f es (decr (f e) m)"
proof -
  have c: "cell m (f e) = int (count_list (map f es) (f e)) + 1"
    using assms(1) by (simp add: tallies_def)
  have "count_list (map f es) (f e) \<le> length es"
    using count_list_le_length [of "map f es" "f e"] by simp
  then have "cell m (f e) - 1 < 2 ^ 63" and "- (2 ^ 63) \<le> cell m (f e) - 1"
    using assms(2) c by simp_all
  then have w: "wrap64 (cell m (f e) - 1) = cell m (f e) - 1"
    by (simp add: wrap64_id)
  show ?thesis
    using assms(1) w c
    by (auto simp add: tallies_def decr_def cell_update distinct_update)
qed

lemma sum_snd_cell:
  "distinct (map fst m) \<Longrightarrow> sum_list (map snd m) = (\<Sum>k\<leftarrow>map fst m. cell m k)"
proof (induction m)
  case Nil
  then show ?case by simp
next
  case (Cons p m)
  obtain k v where p: "p = (k, v)" by (cases p)
  from Cons.prems p have k: "k \<notin> fst ` set m" and d: "distinct (map fst m)"
    by auto
  have "\<And>k'. k' \<in> set (map fst m) \<Longrightarrow> cell ((k, v) # m) k' = cell m k'"
    using k by (auto simp add: cell_def)
  then have "(\<Sum>k'\<leftarrow>map fst m. cell ((k, v) # m) k') = (\<Sum>k'\<leftarrow>map fst m. cell m k')"
    by (intro arg_cong [where f = sum_list] map_cong) auto
  with Cons.IH [OF d] p show ?case
    by (simp add: cell_def)
qed

lemma cell_zero_outside: "k \<notin> fst ` set m \<Longrightarrow> cell m k = 0"
  by (simp add: cell_def map_of_eq_None_iff [THEN iffD2])

lemma sum_tallies:
  assumes "tallies f es m"
  shows "sum_list (map snd m) = int (length es)"
proof -
  from assms have d: "distinct (map fst m)"
    and c: "\<And>k. cell m k = int (count_list (map f es) k)"
    by (simp_all add: tallies_def)
  have sub: "set (map f es) \<subseteq> set (map fst m)"
  proof
    fix k assume "k \<in> set (map f es)"
    then have "count_list (map f es) k > 0"
      using count_list_0_iff [of "map f es" k] by auto
    then have "cell m k \<noteq> 0" using c by simp
    then show "k \<in> set (map fst m)"
      using cell_zero_outside [of k m] by auto
  qed
  have "sum_list (map snd m) = (\<Sum>k\<leftarrow>map fst m. int (count_list (map f es) k))"
    using sum_snd_cell [OF d] c by simp
  also have "\<dots> = (\<Sum>k\<in>set (map fst m). int (count_list (map f es) k))"
    by (rule sum_list_distinct_conv_sum_set [OF d])
  also have "\<dots> = int (\<Sum>k\<in>set (map fst m). count_list (map f es) k)"
    by simp
  also have "\<dots> = int (length (map f es))"
    using sum_count_set [OF sub] by simp
  finally show ?thesis by simp
qed

lemma coherent_New: "coherent (New w)"
  by (simp add: coherent_def agg_def New_def tallies_Nil timed_def)

lemma coherent_record_entry:
  assumes "coherent s" and "length (entries s) < 2 ^ 62"
  shows "coherent (record_entry e s)"
proof -
  have "TotalCount s + 1 < 2 ^ 63" "- (2 ^ 63) \<le> TotalCount s + 1"
    using assms by (simp_all add: coherent_def agg_def)
  then have "wrap64 (TotalCount s + 1) = TotalCount s + 1"
    by (simp add: wrap64_id)
  then show ?thesis
    using assms tallies_incr [of Status "entries s" "StatusCounts s" e]
      tallies_incr [of "\<lambda>e. orUnknown (Host e)" "entries s" "HostCounts s" e]
    by (simp add: coherent_def agg_def record_entry_def Let_def timed_def)
qed

lemma entries_record_entry: "entries (record_entry e s) = entries s @ [e]"
  by (simp add: record_entry_def Let_def)

lemma agg_evict:
  assumes "agg (e # es) s" and "length es < 2 ^ 62"
  shows "agg es (evict e s)"
proof -
  have "TotalCount s - 1 < 2 ^ 63" "- (2 ^ 63) \<le> TotalCount s - 1"
    using assms by (simp_all add: agg_def)
  then have "wrap64 (TotalCount s - 1) = TotalCount s - 1"
    by (simp add: wrap64_id)
  then show ?thesis
    using assms tallies_decr [of Status e es "StatusCounts s"]
      tallies_decr [of "\<lambda>e. orUnknown (Host e)" e es "HostCounts s"]
    by (simp add: agg_def evict_def Let_def)
qed

lemma evict_keeps:
  "entries (evict e s) = entries s" "serviceTimes (evict e s) = serviceTimes s"
  "connectTimes (evict e s) = connectTimes s" "window (evict e s) = window s"
  by (simp_all add: evict_def Let_def)

lemma pruneLoop_result:
  assumes "agg (pre @ rest) s" and "length (pre @ rest) < 2 ^ 62"
  shows "\<exists>s'. pruneLoop pre s tc = (s', tc + length (timed pre)) \<and> agg rest s' \<and>
           entries s' = entries s \<and> serviceTimes s' = serviceTimes s \<and>
           connectTimes s' = connectTimes s \<and> window s' = window s"
  using assms
proof (induction pre arbitrary: s tc)
  case Nil
  then show ?case by (simp add: timed_def)
next
  case (Cons e pre)
  from Cons.prems have a: "agg (pre @ rest) (evict e s)"
    using agg_evict [of e "pre @ rest" s] by simp
  from Cons.prems have l: "length (pre @ rest) < 2 ^ 62" by simp
  from Cons.IH [OF a l, of "if Status e \<noteq> 101 then tc + 1 else tc"]
  show ?case by (auto simp add: timed_def evict_keeps)
qed

lemma drop_timed:
  "drop (length (timed (take n xs))) (timed xs) = timed (drop n xs)"
proof -
  have "timed xs = timed (take n xs) @ timed (drop n xs)"
    unfolding timed_def by (simp flip: filter_append)
  then show ?thesis by simp
qed

lemma length_timed_take: "length (timed (take n xs)) \<le> length (timed xs)"
proof -
  have "timed xs = timed (take n xs) @ timed (drop n xs)"
    unfolding timed_def by (simp flip: filter_append)
  then show ?thesis by simp
qed

lemma pruneOldest_coherent:
  assumes "coherent s" and "length (entries s) < 2 ^ 62"
  shows "\<exists>s'. pruneOldest c s = Some s' \<and> coherent s' \<and> window s' = window s \<and>
           entries s' = (if 0 < c \<and> c \<le> int (length (entries s))
                         then drop (nat c) (entries s) else entries s)"
proof (cases "0 < c \<and> c \<le> int (length (entries s))")
  case False
  then show ?thesis using assms by (auto simp add: pruneOldest_def)
next
  case True
  let ?pre = "take (nat c) (entries s)" and ?rest = "drop (nat c) (entries s)"
  have a: "agg (?pre @ ?rest) s" using assms by (simp add: coherent_def)
  have l: "length (?pre @ ?rest) < 2 ^ 62" using assms by simp
  from pruneLoop_result [OF a l, of 0] obtain s' where
    loop: "pruneLoop ?pre s 0 = (s', length (timed ?pre))" and a': "agg ?rest s'" and
    keep: "entries s' = entries s" "serviceTimes s' = serviceTimes s"
      "connectTimes s' = connectTimes s" "window s' = window s"
    by auto
  have st: "serviceTimes s = map Service (timed (entries s))"
    and ct: "connectTimes s = map Connect (timed (entries s))"
    using assms by (simp_all add: coherent_def)
  have le: "length (timed ?pre) \<le> length (timed (entries s))"
    by (rule length_timed_take)
  let ?s'' = "s'\<lparr> entries := ?rest,
                  serviceTimes := drop (length (timed ?pre)) (serviceTimes s'),
                  connectTimes := drop (length (timed ?pre)) (connectTimes s') \<rparr>"
  have res: "pruneOldest c s = Some ?s''"
    using True loop keep st ct le by (simp add: pruneOldest_def)
  have "coherent ?s''"
    using a' keep st ct
    by (simp add: coherent_def agg_def drop_map drop_timed)
  then show ?thesis using res True keep by simp
qed

lemma Add_wellformed:
  assumes "wellformed s"
  shows "\<exists>s'. Add e s = Some s' \<and> wellformed s' \<and> window s' = window s"
proof (cases e)
  case None
  then show ?thesis using assms by simp
next
  case (Some x)
  let ?s1 = "record_entry x s"
  have len: "length (entries s) \<le> 100000" using assms by (simp add: wellformed_def maxEntries_def)
  then have c1: "coherent ?s1"
    using assms coherent_record_entry [of s x] by (simp add: wellformed_def)
  have l1: "length (entries ?s1) < 2 ^ 62"
    using len by (simp add: entries_record_entry)
  have w1: "window ?s1 = window s" by (simp add: record_entry_def Let_def)
  show ?thesis
  proof (cases "int (length (entries ?s1)) > maxEntries")
    case False
    then show ?thesis using Some c1 w1 by (simp add: wellformed_def Let_def)
  next
    case True
    from pruneOldest_coherent [OF c1 l1, of "int (length (entries ?s1)) - maxEntries"]
    obtain s' where p: "pruneOldest (int (length (entries ?s1)) - maxEntries) ?s1 = Some s'"
      and c': "coherent s'" and w': "window s' = window ?s1"
      and e': "entries s' = (if 0 < int (length (entries ?s1)) - maxEntries \<and>
                 int (length (entries ?s1)) - maxEntries \<le> int (length (entries ?s1))
               then drop (nat (int (length (entries ?s1)) - maxEntries)) (entries ?s1)
               else entries ?s1)"
      by blast
    have "int (length (entries s')) \<le> maxEntries"
      using True e' by (simp add: maxEntries_def)
    then show ?thesis using Some True p c' w' w1 by (simp add: wellformed_def Let_def)
  qed
qed

lemma Prune_wellformed:
  assumes "wellformed s"
  shows "\<exists>s'. Prune now s = Some s' \<and> wellformed s' \<and> window s' = window s"
proof -
  have c: "coherent s" and len: "length (entries s) \<le> 100000"
    using assms by (simp_all add: wellformed_def maxEntries_def)
  then have l: "length (entries s) < 2 ^ 62" by simp
  show ?thesis
  proof (cases "window s \<noteq> 0 \<and> pruneScan (now + wrap64 (- window s)) (entries s) 0 > 0")
    case False
    then show ?thesis using assms by (auto simp add: Prune_def Let_def)
  next
    case True
    from pruneOldest_coherent [OF c l, of "int (pruneScan (now + wrap64 (- window s)) (entries s) 0)"]
    obtain s' where p: "pruneOldest (int (pruneScan (now + wrap64 (- window s)) (entries s) 0)) s = Some s'"
      and c': "coherent s'" and w': "window s' = window s"
      and e': "length (entries s') \<le> length (entries s)"
      by (auto split: if_splits)
    then show ?thesis using True len by (simp add: Prune_def Let_def wellformed_def maxEntries_def)
  qed
qed

lemma run_wellformed:
  "wellformed s \<Longrightarrow> \<exists>s'. run calls s = Some s' \<and> wellformed s' \<and> window s' = window s"
proof (induction calls arbitrary: s)
  case Nil
  then show ?case by simp
next
  case (Cons c calls)
  have "\<exists>s1. step c s = Some s1 \<and> wellformed s1 \<and> window s1 = window s"
    using Cons.prems Add_wellformed Prune_wellformed by (cases c) simp_all
  then obtain s1 where s1: "step c s = Some s1" "wellformed s1" "window s1 = window s" by blast
  from Cons.IH [OF s1(2)] s1 show ?case by auto
qed

lemma wellformed_New: "wellformed (New w)"
  using coherent_New by (simp add: wellformed_def New_def maxEntries_def)

subsection \<open>Count conservation\<close>

text \<open>
  C3. After every sequence of \<open>Add\<close> and \<open>Prune\<close> calls on a freshly constructed store
  (whatever its window, whatever the entries and the clock readings), no call has
  panicked, \<open>TotalCount\<close> equals the number of entries, and the values of \<open>StatusCounts\<close>
  and of \<open>HostCounts\<close> each add up to \<open>TotalCount\<close>. No counter wraps on the way: the
  proof carries the exact contents of both tables.
\<close>

theorem count_conservation:
  "\<exists>s. run calls (New w) = Some s \<and>
       TotalCount s = int (length (entries s)) \<and>
       sum_list (map snd (StatusCounts s)) = TotalCount s \<and>
       sum_list (map snd (HostCounts s)) = TotalCount s"
proof -
  from run_wellformed [OF wellformed_New, of calls w] obtain s where
    r: "run calls (New w) = Some s" and i: "wellformed s"
    by blast
  from i have a: "agg (entries s) s"
    by (simp add: wellformed_def coherent_def)
  then have "TotalCount s = int (length (entries s))"
    and "sum_list (map snd (StatusCounts s)) = int (length (entries s))"
    and "sum_list (map snd (HostCounts s)) = int (length (entries s))"
    by (auto simp add: agg_def intro: sum_tallies)
  with r show ?thesis by simp
qed

subsection \<open>Latency alignment\<close>

lemma pruneOldest_samples:
  assumes "coherent s" and "length (entries s) < 2 ^ 62"
  shows "\<exists>s'. pruneOldest c s = Some s' \<and>
           (let evicted = take (length (entries s) - length (entries s')) (entries s) in
              entries s' = drop (length evicted) (entries s) \<and>
              serviceTimes s' = drop (length (timed evicted)) (serviceTimes s) \<and>
              connectTimes s' = drop (length (timed evicted)) (connectTimes s))"
proof -
  from pruneOldest_coherent [OF assms, of c] obtain s' where
    p: "pruneOldest c s = Some s'" and c': "coherent s'" and
    e': "entries s' = (if 0 < c \<and> c \<le> int (length (entries s))
                       then drop (nat c) (entries s) else entries s)"
    by blast
  have st: "serviceTimes s = map Service (timed (entries s))"
    and ct: "connectTimes s = map Connect (timed (entries s))"
    using assms(1) by (simp_all add: coherent_def)
  have st': "serviceTimes s' = map Service (timed (entries s'))"
    and ct': "connectTimes s' = map Connect (timed (entries s'))"
    using c' by (simp_all add: coherent_def)
  show ?thesis
  proof (cases "0 < c \<and> c \<le> int (length (entries s))")
    case True
    then have ee: "entries s' = drop (nat c) (entries s)"
      using e' by simp
    have k: "length (entries s) - length (entries s') = nat c"
      using True ee by auto
    have "min (length (entries s)) (nat c) = nat c" using True by linarith
    then show ?thesis
      using p st ct st' ct' k ee
      by (simp add: Let_def drop_map drop_timed)
  next
    case False
    then have ee: "entries s' = entries s"
      using e' by auto
    show ?thesis
      using p st ct st' ct' ee by (simp add: Let_def timed_def)
  qed
qed

text \<open>
  C4. After every sequence of \<open>Add\<close> and \<open>Prune\<close> calls on a freshly constructed store,
  \<open>serviceTimes\<close> and \<open>connectTimes\<close> have as many samples as there are entries whose
  status is not 101; they are the service and connect times of exactly those entries, in
  order. Pruning any number of entries from such a store does not panic and drops from
  the head of both sample sequences as many samples as there are entries with a status
  other than 101 among the evicted ones.
\<close>

theorem latency_alignment:
  "\<exists>s. run calls (New w) = Some s \<and>
       length (serviceTimes s) = length (timed (entries s)) \<and>
       length (connectTimes s) = length (timed (entries s)) \<and>
       serviceTimes s = map Service (timed (entries s)) \<and>
       connectTimes s = map Connect (timed (entries s)) \<and>
       (\<forall>c. \<exists>s'. pruneOldest c s = Some s' \<and>
          (let evicted = take (length (entries s) - length (entries s')) (entries s) in
             entries s' = drop (length evicted) (entries s) \<and>
             serviceTimes s' = drop (length (timed evicted)) (serviceTimes s) \<and>
             connectTimes s' = drop (length (timed evicted)) (connectTimes s)))"
proof -
  from run_wellformed [OF wellformed_New, of calls w] obtain s where
    r: "run calls (New w) = Some s" and i: "wellformed s"
    by blast
  from i have c: "coherent s" and l: "length (entries s) < 2 ^ 62"
    by (simp_all add: wellformed_def maxEntries_def)
  from c have "serviceTimes s = map Service (timed (entries s))"
    and "connectTimes s = map Connect (timed (entries s))"
    by (simp_all add: coherent_def)
  moreover have "\<forall>c. \<exists>s'. pruneOldest c s = Some s' \<and>
          (let evicted = take (length (entries s) - length (entries s')) (entries s) in
             entries s' = drop (length evicted) (entries s) \<and>
             serviceTimes s' = drop (length (timed evicted)) (serviceTimes s) \<and>
             connectTimes s' = drop (length (timed evicted)) (connectTimes s))"
    using pruneOldest_samples [OF c l] by blast
  ultimately show ?thesis using r by simp
qed

subsection \<open>Capacity\<close>

lemma Add_entries:
  assumes "wellformed s"
  shows "\<exists>s'. Add e s = Some s' \<and> wellformed s' \<and>
           entries s' = (case e of None \<Rightarrow> entries s
                         | Some x \<Rightarrow> drop (length (entries s) + 1 - 100000) (entries s @ [x]))"
proof (cases e)
  case None
  then show ?thesis using assms by simp
next
  case (Some x)
  let ?s1 = "record_entry x s"
  have len: "length (entries s) \<le> 100000" using assms by (simp add: wellformed_def maxEntries_def)
  then have c1: "coherent ?s1"
    using assms coherent_record_entry [of s x] by (simp add: wellformed_def)
  have l1: "length (entries ?s1) < 2 ^ 62"
    using len by (simp add: entries_record_entry)
  show ?thesis
  proof (cases "int (length (entries ?s1)) > maxEntries")
    case False
    then show ?thesis using Some c1 by (simp add: wellformed_def Let_def entries_record_entry maxEntries_def)
  next
    case True
    from pruneOldest_coherent [OF c1 l1, of "int (length (entries ?s1)) - maxEntries"]
    obtain s' where p: "pruneOldest (int (length (entries ?s1)) - maxEntries) ?s1 = Some s'"
      and c': "coherent s'"
      and e': "entries s' = (if 0 < int (length (entries ?s1)) - maxEntries \<and>
                 int (length (entries ?s1)) - maxEntries \<le> int (length (entries ?s1))
               then drop (nat (int (length (entries ?s1)) - maxEntries)) (entries ?s1)
               else entries ?s1)"
      by blast
    have n: "nat (int (length (entries ?s1)) - maxEntries) = length (entries s) + 1 - 100000"
      by (simp add: maxEntries_def entries_record_entry)
    have "entries s' = drop (length (entries s) + 1 - 100000) (entries s @ [x])"
      using True e' n by (simp add: maxEntries_def entries_record_entry)
    moreover from this have "int (length (entries s')) \<le> maxEntries"
      using len by (simp add: maxEntries_def)
    ultimately show ?thesis using Some True p c' by (simp add: wellformed_def Let_def)
  qed
qed

text \<open>
  C9. On every store reached from a fresh one, whatever its window, \<open>Add\<close> returns a
  store of at most 100000 entries: the entries of the result are those of the store
  followed by the new one, without the oldest \<open>len - 100000\<close> of them when the append
  exceeds the cap, and they are evicted by \<open>pruneOldest\<close>, the eviction that \<open>Prune\<close> uses.
  A nil entry changes nothing.
\<close>

theorem capacity_bound:
  "\<exists>s s'. run calls (New w) = Some s \<and> Add e s = Some s' \<and>
     length (entries s') \<le> 100000 \<and>
     entries s' = (case e of None \<Rightarrow> entries s
                   | Some x \<Rightarrow> drop (length (entries s) + 1 - 100000) (entries s @ [x])) \<and>
     Add e s = (case e of None \<Rightarrow> Some s
                | Some x \<Rightarrow>
                    if int (length (entries s)) + 1 > maxEntries
                    then pruneOldest (int (length (entries s)) + 1 - maxEntries)
                           (record_entry x s)
                    else Some (record_entry x s))"
proof -
  from run_wellformed [OF wellformed_New, of calls w] obtain s where
    r: "run calls (New w) = Some s" and i: "wellformed s"
    by blast
  from Add_entries [OF i, of e] obtain s' where
    a: "Add e s = Some s'" and i': "wellformed s'" and
    e': "entries s' = (case e of None \<Rightarrow> entries s
                       | Some x \<Rightarrow> drop (length (entries s) + 1 - 100000) (entries s @ [x]))"
    by blast
  from i' have "length (entries s') \<le> 100000"
    by (simp add: wellformed_def maxEntries_def)
  moreover have "Add e s = (case e of None \<Rightarrow> Some s
                | Some x \<Rightarrow>
                    if int (length (entries s)) + 1 > maxEntries
                    then pruneOldest (int (length (entries s)) + 1 - maxEntries)
                           (record_entry x s)
                    else Some (record_entry x s))"
    by (cases e) (simp_all add: Let_def entries_record_entry add.commute)
  ultimately show ?thesis using r a e' by blast
qed

text \<open>At the cap, \<open>Add\<close> drops the oldest entry and stores the new one.\<close>

lemma Add_at_capacity:
  assumes "wellformed s" and "length (entries s) = 100000"
  shows "\<exists>s'. Add (Some x) s = Some s' \<and> entries s' = tl (entries s) @ [x]"
proof -
  from Add_entries [OF assms(1), of "Some x"] obtain s' where
    a: "Add (Some x) s = Some s'" and
    e: "entries s' = drop (length (entries s) + 1 - 100000) (entries s @ [x])"
    by auto
  have "entries s \<noteq> []" using assms(2) by auto
  then have "drop 1 (entries s @ [x]) = tl (entries s) @ [x]"
    by (cases "entries s") simp_all
  then show ?thesis using a e assms(2) by simp
qed

text \<open>The bound holds after \<open>Add\<close> on any store at all, provided the call returns.\<close>

lemma pruneLoop_entries: "entries (fst (pruneLoop pre s tc)) = entries s"
  by (induction pre arbitrary: s tc) (simp_all add: evict_keeps)

lemma Add_capped:
  assumes "Add (Some x) s = Some s'"
  shows "int (length (entries s')) \<le> maxEntries"
proof (cases "int (length (entries (record_entry x s))) > maxEntries")
  case False
  then show ?thesis using assms by (simp add: Let_def)
next
  case True
  let ?s1 = "record_entry x s"
  let ?c = "int (length (entries ?s1)) - maxEntries"
  have p: "pruneOldest ?c ?s1 = Some s'"
    using assms True by (simp add: Let_def)
  have c: "0 < ?c" "?c \<le> int (length (entries ?s1))"
    using True by (simp_all add: maxEntries_def)
  obtain s2 tc where l: "pruneLoop (take (nat ?c) (entries ?s1)) ?s1 0 = (s2, tc)"
    by (cases "pruneLoop (take (nat ?c) (entries ?s1)) ?s1 0")
  have "entries s2 = entries ?s1"
    using pruneLoop_entries [of "take (nat ?c) (entries ?s1)" ?s1 0] l by simp
  then have "entries s' = drop (nat ?c) (entries ?s1)"
    using p c l by (auto simp add: pruneOldest_def split: if_splits)
  then show ?thesis using True by (simp add: maxEntries_def)
qed

subsection \<open>Latency statistics\<close>

lemma wrap64_add_left: "wrap64 (wrap64 a + b) = wrap64 (a + b)"
proof -
  have "(wrap64 a + b + 2 ^ 63) mod 2 ^ 64 = (a + b + 2 ^ 63) mod 2 ^ 64"
  proof -
    have e: "wrap64 a + b + 2 ^ 63 = (a + 2 ^ 63) mod 2 ^ 64 + b"
      by (simp add: wrap64_def)
    have "(wrap64 a + b + 2 ^ 63) mod 2 ^ 64 = ((a + 2 ^ 63) mod 2 ^ 64 + b) mod 2 ^ 64"
      by (simp only: e)
    also have "\<dots> = (a + 2 ^ 63 + b) mod 2 ^ 64"
      by (rule mod_add_left_eq)
    finally show ?thesis by (simp add: ac_simps)
  qed
  then show ?thesis by (simp add: wrap64_def)
qed

lemma wrap64_zero: "wrap64 0 = 0"
  by (simp add: wrap64_def)

lemma foldl_wrap64:
  "foldl (\<lambda>acc t. wrap64 (acc + t)) (wrap64 a) xs = wrap64 (a + sum_list xs)"
proof (induction xs arbitrary: a)
  case Nil
  then show ?case by simp
next
  case (Cons x xs)
  have "foldl (\<lambda>acc t. wrap64 (acc + t)) (wrap64 a) (x # xs) =
        foldl (\<lambda>acc t. wrap64 (acc + t)) (wrap64 (a + x)) xs"
    by (simp add: wrap64_add_left)
  also have "\<dots> = wrap64 (a + x + sum_list xs)"
    by (rule Cons.IH)
  finally show ?case by (simp add: add.assoc)
qed

lemma sum64_wrap: "sum64 xs = wrap64 (sum_list xs)"
  using foldl_wrap64 [of 0 xs] by (simp add: sum64_def wrap64_zero)

lemma sum_list_sort: "sum_list (sort xs) = sum_list (xs :: int list)"
proof -
  have "sum_mset (mset (sort xs)) = sum_mset (mset xs)" by simp
  then show ?thesis by (simp only: sum_mset_sum_list)
qed

lemma sorted_last_Max:
  "sorted xs \<Longrightarrow> xs \<noteq> [] \<Longrightarrow> last xs = Max (set (xs :: int list))"
proof (induction xs)
  case Nil
  then show ?case by simp
next
  case (Cons x xs)
  show ?case
  proof (cases "xs = []")
    case True
    then show ?thesis by simp
  next
    case False
    with Cons have "last xs = Max (set xs)" by simp
    moreover have "x \<le> Max (set xs)"
    proof -
      have "hd xs \<in> set xs" using False by simp
      then have "x \<le> hd xs" and "hd xs \<le> Max (set xs)"
        using Cons.prems by simp_all
      then show ?thesis by simp
    qed
    ultimately show ?thesis using False by (simp add: max_def)
  qed
qed

lemma percentile_index:
  fixes len p :: nat
  assumes "0 < len" and "p < 100"
  shows "len * p div 100 \<le> len - 1"
proof -
  have "len * p < len * 100" using assms by simp
  then have "len * p div 100 < len" by (simp add: less_mult_imp_div_less mult.commute)
  then show ?thesis by simp
qed

text \<open>
  C5, as amended. If the sum of the service-time samples fits a 64-bit signed integer,
  then for a store with samples \<open>GetStats\<close> returns the store's \<open>TotalCount\<close>, as
  \<open>AvgService\<close> the sum of the samples divided by their number (truncated towards
  zero), as \<open>P50Service\<close>, \<open>P95Service\<close> and \<open>P99Service\<close> the values at the sorted index
  \<open>floor(len * p / 100)\<close> clamped to \<open>len - 1\<close>, and as \<open>MaxService\<close> the largest sample;
  for a store without samples it returns all-zero statistics with the store's
  \<open>TotalCount\<close>.
\<close>

theorem GetStats_service:
  assumes "- (2 ^ 63) \<le> sum_list (serviceTimes s)" and "sum_list (serviceTimes s) < 2 ^ 63"
  shows "if serviceTimes s = []
         then GetStats s = \<lparr> StatsTotalCount = TotalCount s, AvgService = 0, P50Service = 0,
                P95Service = 0, P99Service = 0, MaxService = 0, AvgConnect = 0,
                MaxConnect = 0 \<rparr>
         else StatsTotalCount (GetStats s) = TotalCount s \<and>
              AvgService (GetStats s) =
                quo (sum_list (serviceTimes s)) (int (length (serviceTimes s))) \<and>
              P50Service (GetStats s) = spec_percentile (serviceTimes s) 50 \<and>
              P95Service (GetStats s) = spec_percentile (serviceTimes s) 95 \<and>
              P99Service (GetStats s) = spec_percentile (serviceTimes s) 99 \<and>
              MaxService (GetStats s) = Max (set (serviceTimes s))"
proof (cases "serviceTimes s = []")
  case True
  then show ?thesis by (simp add: GetStats_def)
next
  case False
  let ?st = "serviceTimes s"
  let ?len = "length ?st"
  have pos: "0 < ?len" using False by simp
  have avg: "sum64 (sort ?st) = sum_list ?st"
    using assms by (simp add: sum64_wrap sum_list_sort wrap64_id)
  have i50: "?len * 50 div 100 \<le> ?len - 1" and i95: "?len * 95 div 100 \<le> ?len - 1"
    and i99: "?len * 99 div 100 \<le> ?len - 1"
    using pos by (simp_all add: percentile_index)
  have c99: "\<not> ?len \<le> ?len * 99 div 100" using i99 pos by linarith
  have ne: "sort ?st \<noteq> []"
    using pos by (metis length_sort length_greater_0_conv)
  have mx: "sort ?st ! (?len - 1) = Max (set ?st)"
    using sorted_last_Max [of "sort ?st"] ne by (simp add: last_conv_nth)
  show ?thesis
    using False avg i50 i95 i99 c99 mx
    by (simp add: GetStats_def Let_def spec_percentile_def min_absorb1)
qed

lemma scenario2_serviceTimes: "serviceTimes scenario2 = [10, 30, 20]"
  by code_simp

lemma scenario2_TotalCount: "TotalCount scenario2 = 4"
  by code_simp

text \<open>The theorem at the store of three requests and one WebSocket upgrade.\<close>

theorem GetStats_service_witness:
  "- (2 ^ 63) \<le> sum_list (serviceTimes scenario2) \<and>
   sum_list (serviceTimes scenario2) < 2 ^ 63 \<and>
   StatsTotalCount (GetStats scenario2) = 4 \<and>
   AvgService (GetStats scenario2) = 20 \<and>
   P50Service (GetStats scenario2) = 20 \<and>
   P95Service (GetStats scenario2) = 30 \<and>
   P99Service (GetStats scenario2) = 30 \<and>
   MaxService (GetStats scenario2) = 30"
proof -
  have lo: "- (2 ^ 63) \<le> sum_list (serviceTimes scenario2)"
    and hi: "sum_list (serviceTimes scenario2) < 2 ^ 63"
    by (simp_all add: scenario2_serviceTimes)
  from GetStats_service [OF lo hi] lo hi show ?thesis
    by (simp add: scenario2_serviceTimes scenario2_TotalCount quo_def spec_percentile_def)
qed

lemma overflowing_serviceTimes:
  "serviceTimes overflowing = [9223372036854775807, 9223372036854775807]"
  by code_simp

text \<open>
  C5 as stated fails: with two samples equal to the largest \<open>int\<close> the running sum wraps
  around to \<open>-2\<close>, and \<open>AvgService\<close> is \<open>-1\<close> although the mean of the samples is the
  largest \<open>int\<close>.
\<close>

theorem GetStats_mean_counterexample:
  "serviceTimes overflowing \<noteq> [] \<and>
   AvgService (GetStats overflowing) = - 1 \<and>
   quo (sum_list (serviceTimes overflowing)) (int (length (serviceTimes overflowing)))
     = 9223372036854775807"
  by (simp add: overflowing_serviceTimes GetStats_def Let_def sum64_def wrap64_def quo_def)

subsection \<open>Sorting and ranking\<close>

lemma mset_sift: "mset (sift lt x ys) = add_mset x (mset ys)"
  by (induction ys) simp_all

lemma mset_sift_all:
  "mset (foldl (\<lambda>sorted_prefix x. sift lt x sorted_prefix) acc xs) = mset acc + mset xs"
  by (induction xs arbitrary: acc) (simp_all add: mset_sift)

lemma mset_sortSlice: "mset (sortSlice lt xs) = mset xs"
  by (simp add: sortSlice_def mset_sift_all)

lemma set_sift: "set (sift lt x ys) = insert x (set ys)"
  using mset_sift [of lt x ys, THEN arg_cong, of set_mset] by simp

lemma sorted_sift:
  fixes f :: "'a \<Rightarrow> int"
  assumes "sorted_wrt (\<lambda>a b. f a \<le> f b) ys"
  shows "sorted_wrt (\<lambda>a b. f a \<le> f b) (sift (\<lambda>a b. f a > f b) x ys)"
  using assms
proof (induction ys)
  case Nil
  then show ?case by simp
next
  case (Cons y ys)
  then show ?case by (auto simp add: set_sift)
qed

lemma sorted_sift_all:
  fixes f :: "'a \<Rightarrow> int"
  assumes "sorted_wrt (\<lambda>a b. f a \<le> f b) acc"
  shows "sorted_wrt (\<lambda>a b. f a \<le> f b)
           (foldl (\<lambda>sorted_prefix x. sift (\<lambda>a b. f a > f b) x sorted_prefix) acc xs)"
  using assms by (induction xs arbitrary: acc) (simp_all add: sorted_sift)

lemma sorted_sortSlice:
  fixes f :: "'a \<Rightarrow> int"
  shows "sorted_wrt (\<lambda>a b. f a \<ge> f b) (sortSlice (\<lambda>a b. f a > f b) xs)"
  using sorted_sift_all [of f "[]" xs] by (simp add: sortSlice_def sorted_wrt_rev)

lemma topN_nonneg:
  "0 \<le> n \<Longrightarrow> topN (Some counts) n =
     Inr (Some (take (nat n) (sortSlice (\<lambda>a b. Count a > Count b) (positiveItems counts))))"
  by (simp add: Let_def)

lemma topN_Some:
  assumes "topN (Some counts) n = Inr (Some topItems)"
  shows "\<exists>k. topItems = take k (sortSlice (\<lambda>a b. Count a > Count b) (positiveItems counts))"
proof (cases "int (length (sortSlice (\<lambda>a b. Count a > Count b) (positiveItems counts))) > n")
  case True
  then show ?thesis using assms by (auto simp add: Let_def split: if_splits)
next
  case False
  then have "topItems = sortSlice (\<lambda>a b. Count a > Count b) (positiveItems counts)"
    using assms by (simp add: Let_def)
  then have "topItems = take (length topItems) (sortSlice (\<lambda>a b. Count a > Count b) (positiveItems counts))"
    by simp
  then show ?thesis ..
qed

lemma wrap64_add_right: "wrap64 (a + wrap64 b) = wrap64 (a + b)"
  using wrap64_add_left [of b a] by (simp add: add.commute)

lemma foldl_cond_wrap64:
  "foldl (\<lambda>other (label, cnt). if P label cnt then wrap64 (other + cnt) else other)
     (wrap64 a) xs
   = wrap64 (a + sum_list (map snd (filter (\<lambda>(label, cnt). P label cnt) xs)))"
proof (induction xs arbitrary: a)
  case Nil
  then show ?case by simp
next
  case (Cons x xs)
  obtain l c where x: "x = (l, c)" by (cases x)
  show ?case
  proof (cases "P l c")
    case True
    then show ?thesis
      using Cons.IH [of "a + c"] x by (simp add: wrap64_add_left add.assoc)
  next
    case False
    then show ?thesis using Cons.IH [of a] x by simp
  qed
qed

lemma GetOtherCount_sum:
  "GetOtherCount counts topItems =
     sum64 (map snd (filter (\<lambda>(label, cnt). label \<notin> set (map Label topItems) \<and> cnt > 0) counts))"
  using foldl_cond_wrap64 [of "\<lambda>label cnt. label \<notin> set (map Label topItems) \<and> cnt > 0" 0 counts]
  by (simp add: GetOtherCount_def Let_def wrap64_zero sum64_wrap)

lemma tied_HostCounts: "HostCounts tied = [(''b.com'', 1), (''a.com'', 1)]"
  by code_simp

subsection \<open>The count outside the ranking\<close>

lemma positiveItems_map:
  "positiveItems counts =
     map (\<lambda>(label, cnt). \<lparr>Label = label, Count = cnt\<rparr>) (filter (\<lambda>(label, cnt). cnt > 0) counts)"
  by (simp add: positiveItems_def)

lemma Label_positiveItems:
  "map Label (positiveItems counts) = map fst (filter (\<lambda>(label, cnt). cnt > 0) counts)"
  by (induction counts) (auto simp add: positiveItems_def)

lemma Count_positiveItems:
  "map Count (positiveItems counts) = map snd (filter (\<lambda>(label, cnt). cnt > 0) counts)"
  by (induction counts) (auto simp add: positiveItems_def)

lemma mset_positiveItems:
  "mset counts' = mset counts \<Longrightarrow> mset (positiveItems counts') = mset (positiveItems counts)"
  by (simp add: positiveItems_def)

lemma filter_positiveItems:
  "map Count (filter (\<lambda>item. Label item \<notin> L) (positiveItems counts)) =
   map snd (filter (\<lambda>(label, cnt). label \<notin> L \<and> cnt > 0) counts)"
  by (induction counts) (auto simp add: positiveItems_def)

lemma filter_outside_prefix:
  assumes "distinct (map f (pre @ rest))"
  shows "filter (\<lambda>x. f x \<notin> set (map f pre)) (pre @ rest) = rest"
proof -
  have "filter (\<lambda>x. f x \<notin> set (map f pre)) pre = []"
    by (simp add: filter_empty_conv)
  moreover have "filter (\<lambda>x. f x \<notin> set (map f pre)) rest = rest"
    using assms by (auto simp add: filter_id_conv)
  ultimately show ?thesis by simp
qed

lemma sum_list_mset_cong:
  fixes f :: "'a \<Rightarrow> int"
  shows "mset xs = mset ys \<Longrightarrow> sum_list (map f xs) = sum_list (map f ys)"
proof -
  assume "mset xs = mset ys"
  then have "sum_mset (image_mset f (mset xs)) = sum_mset (image_mset f (mset ys))"
    by simp
  then show ?thesis by (simp only: mset_map [symmetric] sum_mset_sum_list)
qed

lemma sum_list_nonneg_pos:
  "0 \<le> sum_list (map snd (filter (\<lambda>(label, cnt). P label \<and> (cnt :: int) > 0) counts))"
  by (rule sum_list_nonneg) auto

text \<open>The split of the positive counts into those ranked and those left over.\<close>

lemma ranked_split:
  assumes d: "distinct (map fst counts)" and m: "mset counts' = mset counts"
    and t: "topN (Some counts') n = Inr (Some topItems)"
  shows "sum_list (map snd (filter (\<lambda>(label, cnt). label \<notin> set (map Label topItems) \<and> cnt > 0) counts))
           + sum_list (map Count topItems)
         = sum_list (map snd (filter (\<lambda>(label, cnt). cnt > 0) counts))"
proof -
  let ?S = "sortSlice (\<lambda>a b. Count a > Count b) (positiveItems counts')"
  let ?L = "set (map Label topItems)"
  from topN_Some [OF t] obtain k where top: "topItems = take k ?S" ..
  have mS: "mset ?S = mset (positiveItems counts)"
    by (simp only: mset_sortSlice mset_positiveItems [OF m])
  have "distinct (map Label (positiveItems counts))"
    using d by (simp add: Label_positiveItems distinct_map_filter)
  moreover have "mset (map Label ?S) = mset (map Label (positiveItems counts))"
    using mS by simp
  ultimately have dS: "distinct (map Label ?S)"
    using mset_eq_imp_distinct_iff by blast
  have split: "topItems @ drop k ?S = ?S"
    using top by simp
  have "distinct (map Label (topItems @ drop k ?S))"
    using dS by (simp only: split)
  then have "filter (\<lambda>item. Label item \<notin> ?L) (topItems @ drop k ?S) = drop k ?S"
    by (rule filter_outside_prefix)
  then have rest: "filter (\<lambda>item. Label item \<notin> ?L) ?S = drop k ?S"
    by (simp only: split)
  have "mset (filter (\<lambda>item. Label item \<notin> ?L) (positiveItems counts)) =
        mset (filter (\<lambda>item. Label item \<notin> ?L) ?S)"
    using mS by simp
  then have "sum_list (map Count (filter (\<lambda>item. Label item \<notin> ?L) (positiveItems counts))) =
             sum_list (map Count (filter (\<lambda>item. Label item \<notin> ?L) ?S))"
    by (rule sum_list_mset_cong)
  then have "sum_list (map Count (filter (\<lambda>item. Label item \<notin> ?L) (positiveItems counts))) =
             sum_list (map Count (drop k ?S))"
    by (simp only: rest)
  then have other: "sum_list (map snd (filter (\<lambda>(label, cnt). label \<notin> ?L \<and> cnt > 0) counts)) =
                    sum_list (map Count (drop k ?S))"
    by (simp only: filter_positiveItems)
  have "sum_list (map Count ?S) = sum_list (map Count (positiveItems counts))"
    using mS by (rule sum_list_mset_cong)
  then have "sum_list (map Count (topItems @ drop k ?S)) =
             sum_list (map snd (filter (\<lambda>(label, cnt). cnt > 0) counts))"
    by (simp only: split Count_positiveItems)
  then have "sum_list (map Count topItems) + sum_list (map Count (drop k ?S)) =
             sum_list (map snd (filter (\<lambda>(label, cnt). cnt > 0) counts))"
    by simp
  then show ?thesis using other by linarith
qed

lemma topN_counts_positive:
  assumes "topN (Some counts') n = Inr (Some topItems)"
  shows "\<forall>item \<in> set topItems. 0 < Count item"
proof -
  let ?S = "sortSlice (\<lambda>a b. Count a > Count b) (positiveItems counts')"
  from topN_Some [OF assms] obtain k where top: "topItems = take k ?S" ..
  have "set ?S = set (positiveItems counts')"
    using mset_sortSlice [of "\<lambda>a b. Count a > Count b" "positiveItems counts'", THEN arg_cong, of set_mset]
    by simp
  then have "\<forall>item \<in> set ?S. 0 < Count item"
    by (auto simp add: positiveItems_def)
  then show ?thesis
    using top by (auto dest: in_set_takeD)
qed

text \<open>
  C8, as amended. Let \<open>counts\<close> be a count map and \<open>topItems\<close> a slice that \<open>topN\<close> returned
  for it, for any \<open>n\<close> and in whatever order the ranking visited the map (\<open>counts'\<close> is the
  map in that order). If the positive values of the map add up to less than \<open>2\<^sup>6\<^sup>3\<close>, then
  \<open>GetOtherCount\<close> plus the sum of the counts of \<open>topItems\<close> equals the sum of the positive
  values of the map. Without that bound the two sides agree as \<open>int64\<close> values, that is
  modulo \<open>2\<^sup>6\<^sup>4\<close>. In both cases \<open>GetOtherCount\<close> is the \<open>int64\<close> sum of the positive counts
  whose label is not in the set of labels of \<open>topItems\<close>.
\<close>

theorem other_count_complement:
  assumes "distinct (map fst counts)" and "mset counts' = mset counts"
    and "topN (Some counts') n = Inr (Some topItems)"
  shows "wrap64 (GetOtherCount counts topItems + sum64 (map Count topItems)) =
           sum64 (map snd (filter (\<lambda>(label, cnt). cnt > 0) counts)) \<and>
         GetOtherCount counts topItems =
           sum64 (map snd (filter (\<lambda>(label, cnt). label \<notin> set (map Label topItems) \<and> cnt > 0)
                             counts)) \<and>
         (sum_list (map snd (filter (\<lambda>(label, cnt). cnt > 0) counts)) < 2 ^ 63 \<longrightarrow>
            GetOtherCount counts topItems + sum_list (map Count topItems) =
              sum_list (map snd (filter (\<lambda>(label, cnt). cnt > 0) counts)))"
proof -
  let ?A = "sum_list (map snd (filter (\<lambda>(label, cnt). label \<notin> set (map Label topItems) \<and> cnt > 0) counts))"
  let ?B = "sum_list (map Count topItems)"
  let ?T = "sum_list (map snd (filter (\<lambda>(label, cnt). cnt > 0) counts))"
  have split: "?A + ?B = ?T" using assms by (rule ranked_split)
  have other: "GetOtherCount counts topItems = wrap64 ?A"
    by (simp add: GetOtherCount_sum sum64_wrap)
  have "wrap64 (wrap64 ?A + wrap64 ?B) = wrap64 ?T"
    using split by (simp add: wrap64_add_left wrap64_add_right)
  then have first: "wrap64 (GetOtherCount counts topItems + sum64 (map Count topItems)) =
                    sum64 (map snd (filter (\<lambda>(label, cnt). cnt > 0) counts))"
    using other by (simp add: sum64_wrap)
  have A0: "0 \<le> ?A" by (rule sum_list_nonneg_pos)
  have B0: "0 \<le> ?B"
    using topN_counts_positive [OF assms(3)] by (intro sum_list_nonneg) auto
  have third: "GetOtherCount counts topItems + ?B = ?T" if "?T < 2 ^ 63"
  proof -
    have "?A < 2 ^ 63" using split B0 that by linarith
    then have "wrap64 ?A = ?A" using A0 by (simp add: wrap64_id)
    then show ?thesis using other split by simp
  qed
  show ?thesis
    using first third by (simp add: GetOtherCount_sum)
qed

text \<open>The theorem at the third scenario of the design document: top two of four hosts.\<close>

lemma scenario3_top:
  "topN (Some scenario3) 2 =
     Inr (Some [\<lparr>Label = ''a.com'', Count = 10\<rparr>, \<lparr>Label = ''b.com'', Count = 5\<rparr>])"
  by (simp add: scenario3_def positiveItems_def sortSlice_def Let_def)

theorem other_count_complement_witness:
  "distinct (map fst scenario3) \<and>
   topN (Some scenario3) 2 =
     Inr (Some [\<lparr>Label = ''a.com'', Count = 10\<rparr>, \<lparr>Label = ''b.com'', Count = 5\<rparr>]) \<and>
   sum_list (map snd (filter (\<lambda>(label, cnt). cnt > 0) scenario3)) = 20 \<and>
   GetOtherCount scenario3 [\<lparr>Label = ''a.com'', Count = 10\<rparr>, \<lparr>Label = ''b.com'', Count = 5\<rparr>]
     = 5"
proof -
  have d: "distinct (map fst scenario3)"
    by (simp add: scenario3_def)
  have t: "sum_list (map snd (filter (\<lambda>(label, cnt). cnt > 0) scenario3)) = 20"
    by (simp add: scenario3_def)
  from other_count_complement [OF d refl scenario3_top] t
  have "GetOtherCount scenario3 [\<lparr>Label = ''a.com'', Count = 10\<rparr>, \<lparr>Label = ''b.com'', Count = 5\<rparr>]
          + 15 = 20"
    by simp
  then show ?thesis using d t scenario3_top by simp
qed

text \<open>
  C8 as stated fails. The positive values of the map add up to \<open>2\<^sup>6\<^sup>3\<close>; the ranking for
  \<open>n = 0\<close> is empty, and \<open>GetOtherCount\<close> wraps around to \<open>-2\<^sup>6\<^sup>3\<close>.
\<close>

lemma overfull_top: "topN (Some overfull) 0 = Inr (Some [])"
  by (simp add: overfull_def positiveItems_def sortSlice_def Let_def)

theorem other_count_overflow_counterexample:
  "distinct (map fst overfull) \<and>
   topN (Some overfull) 0 = Inr (Some []) \<and>
   GetOtherCount overfull [] = - (2 ^ 63) \<and>
   sum_list (map Count ([] :: CountItem list)) = 0 \<and>
   sum_list (map snd (filter (\<lambda>(label, cnt). cnt > 0) overfull)) = 2 ^ 63 \<and>
   GetOtherCount overfull [] + sum_list (map Count ([] :: CountItem list)) \<noteq>
     sum_list (map snd (filter (\<lambda>(label, cnt). cnt > 0) overfull))"
  by (simp add: overfull_def positiveItems_def sortSlice_def Let_def GetOtherCount_def
      wrap64_def)

text \<open>
  On the host counts of every store reached from \<open>New\<close> the values add up to \<open>TotalCount\<close>,
  which is at most 100000, so nothing wraps: the count outside a ranking of the hosts and
  the counts inside it add up to \<open>TotalCount\<close>.
\<close>

lemma cell_member: "distinct (map fst m) \<Longrightarrow> (k, v) \<in> set m \<Longrightarrow> cell m k = v"
  by (simp add: cell_def)

lemma tallies_nonneg:
  assumes "tallies f es m" and "(k, v) \<in> set m"
  shows "0 \<le> v"
proof -
  have "distinct (map fst m)" using assms(1) by (simp add: tallies_def)
  then have "cell m k = v" using assms(2) by (rule cell_member)
  moreover have "cell m k = int (count_list (map f es) k)"
    using assms(1) by (simp add: tallies_def)
  ultimately show ?thesis by simp
qed

lemma sum_positive_values:
  "(\<And>k v. (k, v) \<in> set m \<Longrightarrow> 0 \<le> (v :: int)) \<Longrightarrow>
   sum_list (map snd (filter (\<lambda>(label, cnt). cnt > 0) m)) = sum_list (map snd m)"
proof (induction m)
  case Nil
  then show ?case by simp
next
  case (Cons p m)
  obtain k v where p: "p = (k, v)" by (cases p)
  have "0 \<le> v" using Cons.prems [of k v] p by simp
  moreover have "sum_list (map snd (filter (\<lambda>(label, cnt). cnt > 0) m)) = sum_list (map snd m)"
    using Cons.prems by (intro Cons.IH) auto
  ultimately show ?case using p by auto
qed

lemma other_hosts_complement:
  assumes "0 \<le> n"
  shows "\<exists>s topItems. run calls (New w) = Some s \<and>
           GetTopHosts n [] s = Inr (Some topItems) \<and>
           GetOtherCount (HostCounts s) topItems + sum_list (map Count topItems) = TotalCount s"
proof -
  from run_wellformed [OF wellformed_New, of calls w] obtain s where
    r: "run calls (New w) = Some s" and i: "wellformed s"
    by blast
  let ?hc = "HostCounts s"
  let ?top = "take (nat n) (sortSlice (\<lambda>a b. Count a > Count b) (positiveItems ?hc))"
  have t: "tallies (\<lambda>e. orUnknown (Host e)) (entries s) ?hc"
    and tc: "TotalCount s = int (length (entries s))"
    and len: "length (entries s) \<le> 100000"
    using i by (simp_all add: wellformed_def coherent_def agg_def maxEntries_def)
  have d: "distinct (map fst ?hc)" using t by (simp add: tallies_def)
  have top: "topN (Some ?hc) n = Inr (Some ?top)"
    using assms by (rule topN_nonneg)
  have total: "sum_list (map snd (filter (\<lambda>(label, cnt). cnt > 0) ?hc)) = TotalCount s"
    using sum_positive_values [of ?hc] tallies_nonneg [OF t] sum_tallies [OF t] tc by simp
  let ?A = "sum_list (map snd (filter (\<lambda>(label, cnt). label \<notin> set (map Label ?top) \<and> cnt > 0) ?hc))"
  have split: "?A + sum_list (map Count ?top) = TotalCount s"
    using ranked_split [OF d refl top] total by simp
  have "0 \<le> sum_list (map Count ?top)"
    using topN_counts_positive [OF top] by (intro sum_list_nonneg) auto
  moreover have "0 \<le> ?A" by (rule sum_list_nonneg_pos)
  ultimately have "?A < 2 ^ 63" and "- (2 ^ 63) \<le> ?A"
    using split tc len by simp_all
  then have "GetOtherCount ?hc ?top = ?A"
    by (simp add: GetOtherCount_sum sum64_wrap wrap64_id)
  then show ?thesis
    using r top split by (simp add: GetTopHosts_def del: topN.simps)
qed

subsection \<open>Ranking of hosts\<close>

lemma sorted_desc_unique:
  fixes xs ys :: "int list"
  assumes "sorted_wrt (\<lambda>a b. a \<ge> b) xs" and "sorted_wrt (\<lambda>a b. a \<ge> b) ys"
    and "mset xs = mset ys"
  shows "xs = ys"
proof -
  have sx: "sorted (rev xs)" and sy: "sorted (rev ys)"
    using assms(1,2) by (simp_all add: sorted_wrt_rev)
  have "mset (rev xs) = mset (rev ys)" using assms(3) by simp
  then have "sort (rev ys) = rev xs"
    using sx by (rule properties_for_sort)
  moreover have "sort (rev ys) = rev ys"
    using sy by (rule sorted_sort_id)
  ultimately have "rev xs = rev ys" by simp
  then show ?thesis by simp
qed

lemma Count_sortSlice_sorted:
  "sorted_wrt (\<lambda>a b. a \<ge> b) (map Count (sortSlice (\<lambda>a b. Count a > Count b) xs))"
  using sorted_sortSlice [of Count xs] by (simp add: sorted_wrt_map)

lemma ranking_counts_determined:
  assumes "mset counts' = mset counts"
  shows "map Count (sortSlice (\<lambda>a b. Count a > Count b) (positiveItems counts')) =
         map Count (sortSlice (\<lambda>a b. Count a > Count b) (positiveItems counts))"
proof (rule sorted_desc_unique)
  have "mset (sortSlice (\<lambda>a b. Count a > Count b) (positiveItems counts')) =
        mset (sortSlice (\<lambda>a b. Count a > Count b) (positiveItems counts))"
    by (simp only: mset_sortSlice mset_positiveItems [OF assms])
  then show "mset (map Count (sortSlice (\<lambda>a b. Count a > Count b) (positiveItems counts'))) =
             mset (map Count (sortSlice (\<lambda>a b. Count a > Count b) (positiveItems counts)))"
    by simp
qed (rule Count_sortSlice_sorted)+

lemma ranking_determined:
  assumes m: "mset counts' = mset counts"
    and d: "distinct (map snd (filter (\<lambda>(label, cnt). cnt > 0) counts))"
  shows "sortSlice (\<lambda>a b. Count a > Count b) (positiveItems counts') =
         sortSlice (\<lambda>a b. Count a > Count b) (positiveItems counts)"
proof -
  let ?S' = "sortSlice (\<lambda>a b. Count a > Count b) (positiveItems counts')"
  let ?S = "sortSlice (\<lambda>a b. Count a > Count b) (positiveItems counts)"
  have s: "set ?S = set (positiveItems counts)"
    using mset_sortSlice [of "\<lambda>a b. Count a > Count b" "positiveItems counts", THEN arg_cong, of set_mset]
    by simp
  have "mset ?S' = mset (positiveItems counts)"
    by (simp only: mset_sortSlice mset_positiveItems [OF m])
  then have s': "set ?S' = set (positiveItems counts)"
    by (metis set_mset_mset)
  have "distinct (map Count (positiveItems counts))"
    using d by (simp only: Count_positiveItems)
  then have "inj_on Count (set (positiveItems counts))"
    by (simp add: distinct_map)
  then have "inj_on Count (set ?S' \<union> set ?S)"
    by (simp only: s s' Un_absorb)
  then show ?thesis
    using ranking_counts_determined [OF m] by (simp only: inj_on_map_eq_map)
qed

lemma topN_negative: "n < 0 \<Longrightarrow> topN (Some counts) n = Inl SliceBoundsOutOfRange"
  by (simp add: Let_def)

text \<open>
  C7, as amended. \<open>GetTopHosts(n, "")\<close> panics for every negative \<open>n\<close>. For \<open>n \<ge> 0\<close> it
  returns at most \<open>n\<close> pairs of \<open>HostCounts\<close> with positive count, sorted by count
  descending. A second call on the same store, visiting the map in any order
  \<open>hostCounts'\<close>, panics as well for a negative \<open>n\<close>; for \<open>n \<ge> 0\<close> it returns the same
  sequence of counts, and the identical result when no two positive host counts are
  equal.
\<close>

theorem GetTopHosts_ranking:
  assumes "mset hostCounts' = mset (HostCounts s)"
  shows "if n < 0
         then GetTopHosts n [] s = Inl SliceBoundsOutOfRange \<and>
              GetTopHosts n [] (s\<lparr>HostCounts := hostCounts'\<rparr>) = Inl SliceBoundsOutOfRange
         else (\<exists>items items'.
           GetTopHosts n [] s = Inr (Some items) \<and>
           GetTopHosts n [] (s\<lparr>HostCounts := hostCounts'\<rparr>) = Inr (Some items') \<and>
           length items \<le> nat n \<and>
           set items \<subseteq> set (positiveItems (HostCounts s)) \<and>
           sorted_wrt (\<lambda>a b. Count a \<ge> Count b) items \<and>
           map Count items' = map Count items \<and>
           (distinct (map snd (filter (\<lambda>(label, cnt). cnt > 0) (HostCounts s))) \<longrightarrow>
              items' = items))"
proof (cases "n < 0")
  case True
  then show ?thesis
    by (simp add: GetTopHosts_def topN_negative del: topN.simps)
next
  case False
  then have n: "0 \<le> n" by simp
  let ?S = "sortSlice (\<lambda>a b. Count a > Count b) (positiveItems (HostCounts s))"
  let ?S' = "sortSlice (\<lambda>a b. Count a > Count b) (positiveItems hostCounts')"
  have r: "GetTopHosts n [] s = Inr (Some (take (nat n) ?S))"
    using n by (simp add: GetTopHosts_def topN_nonneg del: topN.simps)
  have r': "GetTopHosts n [] (s\<lparr>HostCounts := hostCounts'\<rparr>) = Inr (Some (take (nat n) ?S'))"
    using n by (simp add: GetTopHosts_def topN_nonneg del: topN.simps)
  have "set ?S = set (positiveItems (HostCounts s))"
    using mset_sortSlice [of "\<lambda>a b. Count a > Count b" "positiveItems (HostCounts s)",
        THEN arg_cong, of set_mset]
    by simp
  then have sub: "set (take (nat n) ?S) \<subseteq> set (positiveItems (HostCounts s))"
    using set_take_subset [of "nat n" ?S] by simp
  have srt: "sorted_wrt (\<lambda>a b. Count a \<ge> Count b) (take (nat n) ?S)"
    using sorted_sortSlice [of Count "positiveItems (HostCounts s)"]
    by (rule sorted_wrt_take)
  have cnt: "map Count (take (nat n) ?S') = map Count (take (nat n) ?S)"
    using ranking_counts_determined [OF assms] by (simp only: take_map [symmetric])
  have same: "take (nat n) ?S' = take (nat n) ?S"
    if "distinct (map snd (filter (\<lambda>(label, cnt). cnt > 0) (HostCounts s)))"
    using ranking_determined [OF assms that] by simp
  show ?thesis
    using False r r' sub srt cnt same by simp
qed

text \<open>
  The theorem at a store with two hosts of different counts, the map visited backwards,
  for \<open>n = 2\<close> and for \<open>n = -1\<close>.
\<close>

lemma ranked_HostCounts: "HostCounts ranked = [(''b.com'', 1), (''a.com'', 2)]"
  by code_simp

lemma ranked_top:
  "GetTopHosts 2 [] ranked =
     Inr (Some [\<lparr>Label = ''a.com'', Count = 2\<rparr>, \<lparr>Label = ''b.com'', Count = 1\<rparr>])"
  by (simp add: GetTopHosts_def ranked_HostCounts positiveItems_def sortSlice_def Let_def)

theorem GetTopHosts_ranking_witness:
  "mset (rev (HostCounts ranked)) = mset (HostCounts ranked) \<and>
   distinct (map snd (filter (\<lambda>(label, cnt). cnt > 0) (HostCounts ranked))) \<and>
   GetTopHosts 2 [] ranked =
     Inr (Some [\<lparr>Label = ''a.com'', Count = 2\<rparr>, \<lparr>Label = ''b.com'', Count = 1\<rparr>]) \<and>
   GetTopHosts 2 [] (ranked\<lparr>HostCounts := rev (HostCounts ranked)\<rparr>) =
     Inr (Some [\<lparr>Label = ''a.com'', Count = 2\<rparr>, \<lparr>Label = ''b.com'', Count = 1\<rparr>]) \<and>
   GetTopHosts (- 1) [] ranked = Inl SliceBoundsOutOfRange \<and>
   GetTopHosts (- 1) [] (ranked\<lparr>HostCounts := rev (HostCounts ranked)\<rparr>) =
     Inl SliceBoundsOutOfRange"
proof -
  have m: "mset (rev (HostCounts ranked)) = mset (HostCounts ranked)" by simp
  have d: "distinct (map snd (filter (\<lambda>(label, cnt). cnt > 0) (HostCounts ranked)))"
    by (simp add: ranked_HostCounts)
  from GetTopHosts_ranking [OF m, of 2] obtain items items' where
    "GetTopHosts 2 [] ranked = Inr (Some items)" and
    "GetTopHosts 2 [] (ranked\<lparr>HostCounts := rev (HostCounts ranked)\<rparr>) = Inr (Some items')" and
    "distinct (map snd (filter (\<lambda>(label, cnt). cnt > 0) (HostCounts ranked))) \<longrightarrow> items' = items"
    by auto
  then have two: "GetTopHosts 2 [] (ranked\<lparr>HostCounts := rev (HostCounts ranked)\<rparr>) =
                  GetTopHosts 2 [] ranked"
    using d by simp
  from GetTopHosts_ranking [OF m, of "- 1"]
  have neg: "GetTopHosts (- 1) [] ranked = Inl SliceBoundsOutOfRange"
    "GetTopHosts (- 1) [] (ranked\<lparr>HostCounts := rev (HostCounts ranked)\<rparr>) =
       Inl SliceBoundsOutOfRange"
    by simp_all
  show ?thesis using m d two neg ranked_top by simp
qed

text \<open>
  C7 as stated fails. With two hosts seen once each the ranking returns \<open>b.com\<close> before
  \<open>a.com\<close>, which is not label ascending; the same map visited in the other order gives
  the other result, so two calls need not agree; and a negative \<open>n\<close> makes the slice
  expression \<open>items[:n]\<close> panic.
\<close>

theorem GetTopHosts_ties_counterexample:
  "GetTopHosts 2 [] tied =
     Inr (Some [\<lparr>Label = ''b.com'', Count = 1\<rparr>, \<lparr>Label = ''a.com'', Count = 1\<rparr>]) \<and>
   \<not> spec_ranked [\<lparr>Label = ''b.com'', Count = 1\<rparr>, \<lparr>Label = ''a.com'', Count = 1\<rparr>] \<and>
   map_of (rev (HostCounts tied)) = map_of (HostCounts tied) \<and>
   GetTopHosts 2 [] (tied\<lparr>HostCounts := rev (HostCounts tied)\<rparr>) =
     Inr (Some [\<lparr>Label = ''a.com'', Count = 1\<rparr>, \<lparr>Label = ''b.com'', Count = 1\<rparr>]) \<and>
   GetTopHosts (- 1) [] tied = Inl SliceBoundsOutOfRange"
  by (auto simp add: GetTopHosts_def tied_HostCounts positiveItems_def sortSlice_def Let_def
      spec_ranked_def)

subsection \<open>Ranking of paths\<close>

text \<open>
  The table that \<open>GetAllPaths\<close> builds has distinct keys and holds for every path its count
  over all hosts.
\<close>

lemma wrap64_idem: "wrap64 (wrap64 x) = wrap64 x"
  using wrap64_add_left [of x 0] by simp

lemma aggregate_distinct:
  "distinct (map fst acc) \<Longrightarrow>
   distinct (map fst (foldl (\<lambda>pathCounts (path, cnt).
                               if cnt > 0 \<and> \<not> isExcludedPath path
                               then addTo path cnt pathCounts else pathCounts) acc xs))"
proof (induction xs arbitrary: acc)
  case Nil
  then show ?case by simp
next
  case (Cons x xs)
  obtain path cnt where x: "x = (path, cnt)" by (cases x)
  have "distinct (map fst (addTo path cnt acc))"
    using Cons.prems by (simp add: addTo_def distinct_update)
  then show ?case
    using Cons.IH [of "addTo path cnt acc"] Cons.IH [of acc] Cons.prems x by simp
qed

lemma aggregate_cell:
  assumes "\<And>q. wrap64 (cell acc q) = cell acc q"
  shows "cell (foldl (\<lambda>pathCounts (path, cnt).
                        if cnt > 0 \<and> \<not> isExcludedPath path
                        then addTo path cnt pathCounts else pathCounts) acc xs) p =
         wrap64 (cell acc p +
           sum_list (map snd (filter (\<lambda>(q, cnt). q = p \<and> cnt > 0 \<and> \<not> isExcludedPath q) xs)))"
  using assms
proof (induction xs arbitrary: acc)
  case Nil
  then show ?case by simp
next
  case (Cons x xs)
  obtain path cnt where x: "x = (path, cnt)" by (cases x)
  show ?case
  proof (cases "cnt > 0 \<and> \<not> isExcludedPath path")
    case False
    then show ?thesis
      using Cons.IH [of acc] Cons.prems x by auto
  next
    case True
    have w: "\<And>q. wrap64 (cell (addTo path cnt acc) q) = cell (addTo path cnt acc) q"
      using Cons.prems by (simp add: addTo_def cell_update wrap64_idem)
    have c: "cell (addTo path cnt acc) p =
             (if p = path then wrap64 (cell acc p + cnt) else cell acc p)"
      by (simp add: addTo_def cell_update)
    show ?thesis
      using Cons.IH [OF w] True x c
      by (simp add: wrap64_add_left add.assoc)
  qed
qed

lemma GetAllPaths_cells:
  "\<exists>pathCounts. GetAllPaths n s = topN (Some pathCounts) n \<and>
     distinct (map fst pathCounts) \<and> (\<forall>p. cell pathCounts p = pathTotal s p)"
proof -
  let ?xs = "concat (map snd (hostToPaths s))"
  let ?pc = "foldl (\<lambda>pathCounts (path, cnt).
                      if cnt > 0 \<and> \<not> isExcludedPath path
                      then addTo path cnt pathCounts else pathCounts) [] ?xs"
  have d: "distinct (map fst ?pc)"
    by (rule aggregate_distinct) simp
  have z: "\<And>q. wrap64 (cell ([] :: string counts) q) = cell [] q"
    by (simp add: cell_def wrap64_zero)
  have "cell ?pc p = pathTotal s p" for p
  proof (cases "isExcludedPath p")
    case True
    have "filter (\<lambda>(q, cnt). q = p \<and> cnt > 0 \<and> \<not> isExcludedPath q) ?xs = []"
      using True by (auto simp add: filter_empty_conv)
    then show ?thesis
      using aggregate_cell [OF z, of ?xs p] True
      by (simp add: pathTotal_def cell_def wrap64_zero)
  next
    case False
    have "filter (\<lambda>(q, cnt). q = p \<and> cnt > 0 \<and> \<not> isExcludedPath q) ?xs =
          filter (\<lambda>(q, cnt). q = p \<and> cnt > 0) ?xs"
      using False by (intro filter_cong) auto
    then show ?thesis
      using aggregate_cell [OF z, of ?xs p] False
      by (simp add: pathTotal_def cell_def sum64_wrap)
  qed
  then show ?thesis
    using d by (auto simp add: GetAllPaths_def)
qed

text \<open>What \<open>topN\<close> returns for a table with distinct keys and \<open>n \<ge> 0\<close>.\<close>

lemma positive_labels:
  assumes "distinct (map fst counts)"
  shows "set (map Label (positiveItems counts)) = {l. 0 < cell counts l}"
proof -
  have "set (map Label (positiveItems counts)) = {l. \<exists>c. (l, c) \<in> set counts \<and> 0 < c}"
    by (force simp add: Label_positiveItems)
  also have "\<dots> = {l. 0 < cell counts l}"
  proof (rule Collect_cong)
    fix l
    show "(\<exists>c. (l, c) \<in> set counts \<and> 0 < c) \<longleftrightarrow> 0 < cell counts l"
    proof
      assume "\<exists>c. (l, c) \<in> set counts \<and> 0 < c"
      then obtain c where "(l, c) \<in> set counts" and "0 < c" by blast
      then show "0 < cell counts l" using cell_member [OF assms, of l c] by simp
    next
      assume p: "0 < cell counts l"
      then obtain v where "map_of counts l = Some v"
        by (cases "map_of counts l") (simp_all add: cell_def)
      then have "(l, v) \<in> set counts" and "cell counts l = v"
        by (simp_all add: map_of_SomeD cell_def)
      then show "\<exists>c. (l, c) \<in> set counts \<and> 0 < c" using p by auto
    qed
  qed
  finally show ?thesis .
qed

lemma positiveItems_cells:
  assumes "distinct (map fst counts)" and "item \<in> set (positiveItems counts)"
  shows "Count item = cell counts (Label item) \<and> 0 < Count item"
proof -
  from assms(2) obtain l c where "(l, c) \<in> set counts" and "0 < c"
    and i: "item = \<lparr>Label = l, Count = c\<rparr>"
    by (auto simp add: positiveItems_def)
  then show ?thesis using cell_member [OF assms(1), of l c] by simp
qed

lemma ranking_of_cells:
  assumes d: "distinct (map fst counts)" and n: "0 \<le> n"
  shows "\<exists>items. topN (Some counts) n = Inr (Some items) \<and>
           sorted_wrt (\<lambda>a b. Count a \<ge> Count b) items \<and>
           distinct (map Label items) \<and>
           length items = min (nat n) (card {l. 0 < cell counts l}) \<and>
           (\<forall>item \<in> set items.
              Count item = cell counts (Label item) \<and> 0 < Count item)"
proof -
  let ?S = "sortSlice (\<lambda>a b. Count a > Count b) (positiveItems counts)"
  have mS: "mset ?S = mset (positiveItems counts)" by (rule mset_sortSlice)
  have dl: "distinct (map Label (positiveItems counts))"
    using d by (simp add: Label_positiveItems distinct_map_filter)
  have "mset (map Label ?S) = mset (map Label (positiveItems counts))"
    using mS by simp
  then have dS: "distinct (map Label ?S)"
    using dl mset_eq_imp_distinct_iff by blast
  have "length ?S = length (positiveItems counts)"
    using mS by (rule mset_eq_length)
  also have "\<dots> = length (map Label (positiveItems counts))" by simp
  also have "\<dots> = card (set (map Label (positiveItems counts)))"
    using dl by (simp only: distinct_card)
  also have "\<dots> = card {l. 0 < cell counts l}"
    using positive_labels [OF d] by simp
  finally have len: "length ?S = card {l. 0 < cell counts l}" .
  have sS: "set ?S = set (positiveItems counts)"
    using mS by (rule mset_eq_setD)
  have cells: "\<forall>item \<in> set (take (nat n) ?S).
                 Count item = cell counts (Label item) \<and> 0 < Count item"
    using positiveItems_cells [OF d] sS by (auto dest: in_set_takeD)
  have srt: "sorted_wrt (\<lambda>a b. Count a \<ge> Count b) (take (nat n) ?S)"
    using sorted_sortSlice [of Count "positiveItems counts"] by (rule sorted_wrt_take)
  have dt: "distinct (map Label (take (nat n) ?S))"
    using dS by (simp add: take_map [symmetric])
  have "topN (Some counts) n = Inr (Some (take (nat n) ?S))"
    using n by (rule topN_nonneg)
  moreover have "length (take (nat n) ?S) = min (nat n) (card {l. 0 < cell counts l})"
    by (simp only: length_take len min.commute [of _ "nat n"])
  ultimately show ?thesis
    using srt dt cells by blast
qed

text \<open>
  C10. With both the host and the ip filter empty, \<open>GetTopPaths\<close> returns nil for every
  store and every \<open>n\<close>, whatever path counts the store holds. The ranking of the paths
  without a filter is what \<open>GetAllPaths\<close> returns: for \<open>n \<ge> 0\<close> a slice, sorted by count
  descending and without a repeated path, of \<open>n\<close> of the paths whose count over all hosts
  is positive, or of all of them when there are no more than \<open>n\<close>, each with that count,
  none of them on the deny list; for a negative \<open>n\<close> it panics.
\<close>

theorem unfiltered_path_ranking:
  "GetTopPaths n [] [] s = Inr None \<and>
   (if n < 0 then GetAllPaths n s = Inl SliceBoundsOutOfRange
    else (\<exists>items. GetAllPaths n s = Inr (Some items) \<and>
            sorted_wrt (\<lambda>a b. Count a \<ge> Count b) items \<and>
            distinct (map Label items) \<and>
            length items = min (nat n) (card {path. 0 < pathTotal s path}) \<and>
            (\<forall>item \<in> set items.
               \<not> isExcludedPath (Label item) \<and>
               Count item = pathTotal s (Label item) \<and> 0 < Count item)))"
proof -
  from GetAllPaths_cells [of n s] obtain pathCounts where
    g: "GetAllPaths n s = topN (Some pathCounts) n" and
    d: "distinct (map fst pathCounts)" and
    c: "\<And>p. cell pathCounts p = pathTotal s p"
    by blast
  have first: "GetTopPaths n [] [] s = Inr None"
    by (simp add: GetTopPaths_def)
  show ?thesis
  proof (cases "n < 0")
    case True
    then show ?thesis using first g by (simp add: topN_negative del: topN.simps)
  next
    case False
    then have "0 \<le> n" by simp
    from ranking_of_cells [OF d this] obtain items where
      t: "topN (Some pathCounts) n = Inr (Some items)" and
      srt: "sorted_wrt (\<lambda>a b. Count a \<ge> Count b) items" and
      dl: "distinct (map Label items)" and
      len: "length items = min (nat n) (card {l. 0 < cell pathCounts l})" and
      cells: "\<forall>item \<in> set items. Count item = cell pathCounts (Label item) \<and> 0 < Count item"
      by blast
    have ex: "\<not> isExcludedPath (Label item)" if "item \<in> set items" for item
    proof
      assume "isExcludedPath (Label item)"
      then have "pathTotal s (Label item) = 0" by (simp add: pathTotal_def)
      then show False using cells that c by auto
    qed
    show ?thesis
      using False first g t srt dl len cells ex by (auto simp add: c)
  qed
qed

text \<open>
  The theorem at the store with three requests for the path \<open>/\<close>, one for host \<open>b.com\<close>
  and two for host \<open>a.com\<close>.
\<close>

lemma ranked_paths:
  "GetAllPaths 10 ranked = Inr (Some [\<lparr>Label = ''/'', Count = 3\<rparr>])"
  by code_simp

theorem unfiltered_path_ranking_witness:
  "GetTopPaths 10 [] [] ranked = Inr None \<and>
   GetAllPaths 10 ranked = Inr (Some [\<lparr>Label = ''/'', Count = 3\<rparr>]) \<and>
   \<not> isExcludedPath ''/'' \<and> pathTotal ranked ''/'' = 3 \<and>
   card {path. 0 < pathTotal ranked path} = 1 \<and>
   GetAllPaths (- 1) ranked = Inl SliceBoundsOutOfRange"
proof -
  from unfiltered_path_ranking [of 10 ranked] obtain items where
    n: "GetTopPaths 10 [] [] ranked = Inr None" and
    g: "GetAllPaths 10 ranked = Inr (Some items)" and
    l: "length items = min (nat 10) (card {path. 0 < pathTotal ranked path})" and
    c: "\<forall>item \<in> set items. \<not> isExcludedPath (Label item) \<and>
          Count item = pathTotal ranked (Label item) \<and> 0 < Count item"
    by auto
  have i: "items = [\<lparr>Label = ''/'', Count = 3\<rparr>]"
    using g ranked_paths by simp
  have "card {path. 0 < pathTotal ranked path} = 1"
    using l i by simp
  moreover have "\<not> isExcludedPath ''/'' \<and> pathTotal ranked ''/'' = 3"
    using c i by simp
  moreover have "GetAllPaths (- 1) ranked = Inl SliceBoundsOutOfRange"
    using unfiltered_path_ranking [of "- 1" ranked] by simp
  ultimately show ?thesis using n ranked_paths by simp
qed

text \<open>On the same store \<open>GetTopPaths\<close> ranks the paths of a host once the host is given.\<close>

lemma GetTopPaths_ranked:
  "GetTopPaths 10 ''a.com'' [] ranked = Inr (Some [\<lparr>Label = ''/'', Count = 2\<rparr>])"
  by code_simp

subsection \<open>Rounding to float64\<close>

text \<open>
  Known values: the \<open>float64\<close> nearest to 0.1 and to 0.02, a tie rounded down to the even
  significand and one rounded up to it, and a number that needs no rounding.
\<close>

lemma float64_examples:
  "float64 (1 / 10) = 3602879701896397 / 2 ^ 55 \<and>
   float64 (2 / 100) = 5764607523034235 / 2 ^ 58 \<and>
   float64 (2 ^ 53 + 1) = 2 ^ 53 \<and>
   float64 (2 ^ 53 + 3) = 2 ^ 53 + 4 \<and>
   float64 (- 3 / 4) = - 3 / 4"
  by code_simp

text \<open>
  \<open>exponent\<close> is the binary exponent, and \<open>float64 x\<close> is a multiple of the unit in the last
  place of \<open>x\<close> at most half a unit away from \<open>x\<close>.
\<close>

lemma pow2_powi: "pow2 k = 2 powi k"
  by (simp add: pow2_def power_int_def inverse_eq_divide power_one_over)

lemma pow2_add: "pow2 (j + k) = pow2 j * pow2 k"
  by (simp add: pow2_powi power_int_add)

lemma pow2_pos: "0 < pow2 k"
  by (simp add: pow2_powi)

lemma pow2_nat: "pow2 (int n) = 2 ^ n"
  by (simp add: pow2_def)

lemma exponent_bounds:
  assumes "0 < a"
  shows "pow2 (exponent a) \<le> a \<and> a < pow2 (exponent a + 1)"
proof -
  obtain p q where pq: "quotient_of a = (p, q)" by (cases "quotient_of a")
  then have q: "0 < q" and a: "a = of_int p / of_int q"
    by (simp_all add: quotient_of_denom_pos quotient_of_div)
  have p: "0 < p" using assms a q by (simp add: zero_less_divide_iff)
  let ?P = "bitlen p" and ?Q = "bitlen q"
  let ?d = "?P - ?Q"
  from bitlen_bounds [OF p] have p1: "2 ^ nat (?P - 1) \<le> p" and p2: "p < 2 ^ nat ?P" by simp_all
  from bitlen_bounds [OF q] have q1: "2 ^ nat (?Q - 1) \<le> q" and q2: "q < 2 ^ nat ?Q" by simp_all
  have P: "0 < ?P"
  proof (rule ccontr)
    assume "\<not> 0 < ?P"
    then have "nat ?P = 0" by simp
    with p2 have "p < 1" by simp
    with p show False by simp
  qed
  have Q: "0 < ?Q"
  proof (rule ccontr)
    assume "\<not> 0 < ?Q"
    then have "nat ?Q = 0" by simp
    with q2 have "q < 1" by simp
    with q show False by simp
  qed
  have up: "a < pow2 (?d + 1)"
  proof -
    have "rat_of_int p < 2 ^ nat ?P" using p2 by (metis of_int_less_iff of_int_numeral of_int_power)
    also have "\<dots> = pow2 ?P" using P by (simp add: pow2_def)
    also have "\<dots> = pow2 (?d + 1) * pow2 (?Q - 1)" by (simp flip: pow2_add)
    also have "\<dots> \<le> pow2 (?d + 1) * rat_of_int q"
    proof -
      have "pow2 (?Q - 1) = 2 ^ nat (?Q - 1)" using Q by (simp add: pow2_def)
      also have "\<dots> \<le> rat_of_int q" using q1 by (metis of_int_le_iff of_int_numeral of_int_power)
      finally show ?thesis using pow2_pos [of "?d + 1"] by simp
    qed
    finally show ?thesis using q a by (simp add: pos_divide_less_eq)
  qed
  have lo: "pow2 (?d - 1) \<le> a"
  proof -
    have "pow2 (?d - 1) * rat_of_int q \<le> pow2 (?d - 1) * pow2 ?Q"
    proof -
      have "rat_of_int q \<le> 2 ^ nat ?Q" using q2 by (metis less_imp_le of_int_le_iff of_int_numeral of_int_power)
      also have "\<dots> = pow2 ?Q" using Q by (simp add: pow2_def)
      finally show ?thesis using pow2_pos [of "?d - 1"] by simp
    qed
    also have "\<dots> = pow2 (?P - 1)" by (simp flip: pow2_add)
    also have "\<dots> = 2 ^ nat (?P - 1)" using P by (simp add: pow2_def)
    also have "\<dots> \<le> rat_of_int p" using p1 by (metis of_int_le_iff of_int_numeral of_int_power)
    finally show ?thesis using q a by (simp add: pos_le_divide_eq)
  qed
  show ?thesis
  proof (cases "pow2 ?d \<le> a")
    case True
    then have "exponent a = ?d" using pq by (simp add: exponent_def Let_def)
    then show ?thesis using True up by simp
  next
    case False
    then have "exponent a = ?d - 1" using pq by (simp add: exponent_def Let_def)
    then show ?thesis using False lo by simp
  qed
qed

lemma float64_nearest:
  assumes "x \<noteq> 0"
  shows "\<exists>m. float64 x = of_int m * pow2 (exponent \<bar>x\<bar> - 52) \<and>
             \<bar>float64 x - x\<bar> \<le> pow2 (exponent \<bar>x\<bar> - 52) / 2"
proof -
  define ulp where "ulp = pow2 (exponent \<bar>x\<bar> - 52)"
  define q where "q = \<bar>x\<bar> / ulp"
  define m where "m = \<lfloor>q\<rfloor>"
  define m' where "m' = (if q - of_int m < 1 / 2 then m else if q - of_int m > 1 / 2 then m + 1
                         else if even m then m else m + 1)"
  have u: "0 < ulp" unfolding ulp_def by (rule pow2_pos)
  have f: "float64 x = sgn x * of_int m' * ulp"
    using assms by (simp add: float64_def Let_def m'_def m_def q_def ulp_def)
  have "0 \<le> q - of_int m" and "q - of_int m < 1"
    unfolding m_def by linarith+
  then have near: "\<bar>rat_of_int m' - q\<bar> \<le> 1 / 2"
    unfolding m'_def by (auto simp add: abs_if)
  have "q * ulp = \<bar>x\<bar>" using u by (simp add: q_def)
  then have x: "sgn x * q * ulp = x"
    by (simp add: mult.assoc sgn_mult_abs)
  have "float64 x - x = sgn x * of_int m' * ulp - sgn x * q * ulp"
    by (simp only: f x)
  also have "\<dots> = sgn x * (of_int m' - q) * ulp"
    by (simp add: algebra_simps)
  finally have "\<bar>float64 x - x\<bar> = \<bar>of_int m' - q\<bar> * ulp"
    using u assms by (simp add: abs_mult)
  also have "\<dots> \<le> 1 / 2 * ulp"
    using near u by (intro mult_right_mono) simp_all
  finally have d: "\<bar>float64 x - x\<bar> \<le> ulp / 2" by simp
  have "float64 x = of_int (if 0 < x then m' else - m') * ulp"
    using f assms by (simp add: sgn_if)
  then show ?thesis using d unfolding ulp_def by blast
qed

subsection \<open>Trend\<close>

lemma trendTally_from:
  "foldl (\<lambda>(recentTotal, recentErrors, oldTotal, oldErrors) e.
              (let isError = (Status e \<ge> 400) in
               if recentCutoff < Timestamp e
               then (recentTotal + 1, (if isError then recentErrors + 1 else recentErrors),
                     oldTotal, oldErrors)
               else if oldCutoff < Timestamp e
               then (recentTotal, recentErrors,
                     oldTotal + 1, (if isError then oldErrors + 1 else oldErrors))
               else (recentTotal, recentErrors, oldTotal, oldErrors)))
       (a, b, c, d) es =
   (a + int (length (filter (\<lambda>e. recentCutoff < Timestamp e) es)),
    b + errorsIn (filter (\<lambda>e. recentCutoff < Timestamp e) es),
    c + int (length (filter (\<lambda>e. oldCutoff < Timestamp e \<and> Timestamp e \<le> recentCutoff) es)),
    d + errorsIn (filter (\<lambda>e. oldCutoff < Timestamp e \<and> Timestamp e \<le> recentCutoff) es))"
proof (induction es arbitrary: a b c d)
  case Nil
  then show ?case by (simp add: errorsIn_def)
next
  case (Cons e es)
  show ?case
    using Cons.IH by (simp add: errorsIn_def Let_def)
qed

lemma trendTally_buckets:
  "trendTally recentCutoff oldCutoff es =
     (int (length (recentBucket recentCutoff es)), errorsIn (recentBucket recentCutoff es),
      int (length (oldBucket recentCutoff oldCutoff es)),
      errorsIn (oldBucket recentCutoff oldCutoff es))"
  using trendTally_from [of recentCutoff oldCutoff 0 0 0 0 es]
  by (simp add: trendTally_def recentBucket_def oldBucket_def)

text \<open>For every period, with the cutoffs as the program computes them.\<close>

lemma GetTrend_bucketTrend:
  "GetTrend now period s =
     bucketTrend (now + wrap64 (- period)) (now + wrap64 (- 2 * period)) (entries s)"
proof (cases "entries s = []")
  case True
  then show ?thesis
    by (simp add: GetTrend_def GetTrendWithDiff_def bucketTrend_def recentBucket_def)
next
  case False
  then show ?thesis
    by (simp add: GetTrend_def GetTrendWithDiff_def trendTally_buckets bucketTrend_def Let_def)
qed

text \<open>The two cutoffs when the doubled period fits an \<open>int64\<close>.\<close>

lemma cutoffs_plain:
  assumes "- (2 ^ 62) < period" and "period \<le> 2 ^ 62"
  shows "now + wrap64 (- period) = now - period"
    and "now + wrap64 (- 2 * period) = now - 2 * period"
proof -
  have "wrap64 (- period) = - period"
    using assms by (intro wrap64_id) simp_all
  moreover have "wrap64 (- 2 * period) = - 2 * period"
    using assms by (intro wrap64_id) simp_all
  ultimately show "now + wrap64 (- period) = now - period"
    and "now + wrap64 (- 2 * period) = now - 2 * period"
    by simp_all
qed

text \<open>
  C6, as amended. For a period \<open>p\<close> with \<open>-2\<^sup>6\<^sup>2 < p \<le> 2\<^sup>6\<^sup>2\<close> nanoseconds, the range in
  which \<open>-2 * p\<close> does not wrap, \<open>GetTrend(p)\<close> counts as recent the entries with a
  timestamp after \<open>now - p\<close> (with no upper end) and as old those with a timestamp after
  \<open>now - 2 * p\<close> and at or before \<open>now - p\<close>; a status of 400 or more is an error. It
  returns \<open>Stable\<close> when either bucket holds fewer than 10 entries; otherwise it divides
  errors by entries in each bucket and subtracts the old rate from the recent one, all in
  \<open>float64\<close>, and returns \<open>Up\<close> when the difference is greater than the \<open>float64\<close>
  constant 0.02, \<open>Down\<close> when it is less than -0.02, \<open>Stable\<close> otherwise.
\<close>

theorem GetTrend_buckets:
  assumes "- (2 ^ 62) < period" and "period \<le> 2 ^ 62"
  shows "GetTrend now period s =
     (let recent = recentBucket (now - period) (entries s);
          old = oldBucket (now - period) (now - 2 * period) (entries s)
      in if length recent < 10 \<or> length old < 10 then TrendStable
         else
           (let recentRate = fdiv (ofInt64 (errorsIn recent)) (ofInt64 (int (length recent)));
                oldRate = fdiv (ofInt64 (errorsIn old)) (ofInt64 (int (length old)));
                diff = fsub recentRate oldRate
            in if diff > float64 (2 / 100) then TrendUp
               else if diff < - float64 (2 / 100) then TrendDown
               else TrendStable))"
  by (simp only: GetTrend_bucketTrend cutoffs_plain [OF assms] bucketTrend_def)

text \<open>Adding up to 100000 entries to a fresh store stores exactly those entries.\<close>

lemma run_addAll:
  assumes "wellformed s" and "length (entries s) + length es \<le> 100000"
  shows "\<exists>s'. run (addAll es) s = Some s' \<and> entries s' = entries s @ es"
  using assms
proof (induction es arbitrary: s)
  case Nil
  then show ?case by (simp add: addAll_def)
next
  case (Cons e es)
  from Add_entries [OF Cons.prems(1), of "Some e"] obtain s1 where
    a: "Add (Some e) s = Some s1" and i: "wellformed s1" and
    e1: "entries s1 = drop (length (entries s) + 1 - 100000) (entries s @ [e])"
    by auto
  have e1': "entries s1 = entries s @ [e]"
    using e1 Cons.prems(2) by simp
  then have "length (entries s1) + length es \<le> 100000"
    using Cons.prems(2) by simp
  from Cons.IH [OF i this] obtain s' where
    "run (addAll es) s1 = Some s'" and "entries s' = entries s1 @ es"
    by blast
  then show ?case using a e1' by (simp add: addAll_def)
qed

lemma entries_after_addAll:
  "length es \<le> 100000 \<Longrightarrow> entries (after (addAll es) w) = es"
  using run_addAll [OF wellformed_New, of w es] by (auto simp add: after_def New_def)

lemma boundary_stored: "entries boundary = boundary_entries"
  by (simp add: boundary_def entries_after_addAll boundary_entries_def requests_def)

lemma rounding_stored: "entries rounding = rounding_entries"
  by (simp add: rounding_def entries_after_addAll rounding_entries_def requests_def)

lemma scenario5_stored: "entries scenario5 = scenario5_entries"
  by (simp add: scenario5_def entries_after_addAll scenario5_entries_def requests_def)

lemma wrapped_stored: "entries wrapped = wrapped_entries"
  by (simp add: wrapped_def entries_after_addAll wrapped_entries_def requests_def)

text \<open>
  The theorem at the fifth scenario of the design document: the rate rose from 10 to 30
  percent.
\<close>

theorem GetTrend_buckets_witness:
  "- (2 ^ 62) < (30 :: int) \<and> (30 :: int) \<le> 2 ^ 62 \<and>
   length (recentBucket (60 - 30) (entries scenario5)) = 10 \<and>
   errorsIn (recentBucket (60 - 30) (entries scenario5)) = 3 \<and>
   length (oldBucket (60 - 30) (60 - 2 * 30) (entries scenario5)) = 10 \<and>
   errorsIn (oldBucket (60 - 30) (60 - 2 * 30) (entries scenario5)) = 1 \<and>
   GetTrend 60 30 scenario5 = TrendUp"
proof -
  have lo: "- (2 ^ 62) < (30 :: int)" and hi: "(30 :: int) \<le> 2 ^ 62"
    by simp_all
  have t: "bucketTrend 30 0 scenario5_entries = TrendUp"
    by code_simp
  have r: "length (recentBucket 30 scenario5_entries) = 10"
    and re: "errorsIn (recentBucket 30 scenario5_entries) = 3"
    and ol: "length (oldBucket 30 0 scenario5_entries) = 10"
    and oe: "errorsIn (oldBucket 30 0 scenario5_entries) = 1"
    by code_simp+
  have "GetTrend 60 30 scenario5 = bucketTrend (60 - 30) (60 - 2 * 30) (entries scenario5)"
    using GetTrend_buckets [OF lo hi, of 60 scenario5] by (simp only: bucketTrend_def)
  then have "GetTrend 60 30 scenario5 = TrendUp"
    using t by (simp add: scenario5_stored)
  then show ?thesis
    using lo hi r re ol oe by (simp add: scenario5_stored)
qed

text \<open>
  C6 as stated fails three times. Requests received exactly at \<open>now - period\<close> belong to
  the old bucket, not the recent one: ten failures there and ten good requests after
  them give \<open>Down\<close>, where the buckets of the claim give \<open>Stable\<close> (its old bucket is
  empty). Rates of 10 and 8 percent, two points apart and no more, give \<open>Up\<close>: the
  \<open>float64\<close> difference of 0.1 and 0.08 is greater than the \<open>float64\<close> constant 0.02.
  And with a period of \<open>2\<^sup>6\<^sup>2 + 1\<close> nanoseconds the product \<open>-2 * period\<close> wraps to
  \<open>2\<^sup>6\<^sup>3 - 2\<close>, the old cutoff lies in the future, the old bucket is empty and the result
  \<open>Stable\<close>, where the buckets of the claim hold ten good recent requests and ten failed
  old ones and give \<open>Down\<close>.
\<close>

theorem GetTrend_boundary_counterexample:
  "GetTrend 100 10 boundary = TrendDown \<and>
   spec_trend 100 10 (entries boundary) = TrendStable \<and>
   GetTrend 100 10 rounding = TrendUp \<and>
   spec_trend 100 10 (entries rounding) = TrendStable \<and>
   GetTrend (2 ^ 62 + 2) (2 ^ 62 + 1) wrapped = TrendStable \<and>
   spec_trend (2 ^ 62 + 2) (2 ^ 62 + 1) (entries wrapped) = TrendDown"
proof -
  have b: "bucketTrend 90 80 boundary_entries = TrendDown"
    by code_simp
  have r: "bucketTrend 90 80 rounding_entries = TrendUp"
    by code_simp
  have w: "bucketTrend 1 (2 ^ 62 + 2 ^ 63) wrapped_entries = TrendStable"
    by code_simp
  have sb: "spec_trend 100 10 boundary_entries = TrendStable"
    by code_simp
  have sr: "spec_trend 100 10 rounding_entries = TrendStable"
    by code_simp
  have sw: "spec_trend (2 ^ 62 + 2) (2 ^ 62 + 1) wrapped_entries = TrendDown"
    by code_simp
  have c: "(100 :: int) + wrap64 (- 10) = 90" "(100 :: int) + wrap64 (- 2 * 10) = 80"
    "(2 ^ 62 + 2 :: int) + wrap64 (- (2 ^ 62 + 1)) = 1"
    "(2 ^ 62 + 2 :: int) + wrap64 (- 2 * (2 ^ 62 + 1)) = 2 ^ 62 + 2 ^ 63"
    by (simp_all add: wrap64_def)
  have "GetTrend 100 10 boundary = TrendDown"
    using b by (simp only: GetTrend_bucketTrend c boundary_stored)
  moreover have "GetTrend 100 10 rounding = TrendUp"
    using r by (simp only: GetTrend_bucketTrend c rounding_stored)
  moreover have "GetTrend (2 ^ 62 + 2) (2 ^ 62 + 1) wrapped = TrendStable"
    using w by (simp only: GetTrend_bucketTrend c wrapped_stored)
  ultimately show ?thesis
    using sb sr sw by (simp only: boundary_stored rounding_stored wrapped_stored simp_thms)
qed

subsection \<open>Pruning\<close>

text \<open>
  C1 fails on the code. The store has a window of 100 and one entry with timestamp 0;
  at \<open>now = 1000\<close> the entry is older than the window, yet \<open>Prune\<close> returns the store
  unchanged: the scan finds no entry after the cutoff, \<open>pruneCount\<close> keeps its initial
  value 0, and nothing is evicted.
\<close>

theorem Prune_all_stale:
  "window stale = 100 \<and> map Timestamp (entries stale) = [0] \<and>
   Prune 1000 stale = Some stale"
  by code_simp

text \<open>
  What \<open>Prune\<close> does on a store reached from \<open>New\<close>, with the cutoff
  \<open>now + wrap64 (- window s)\<close>, which is \<open>now - window s\<close> for every window but the least
  \<open>int64\<close>: it evicts the longest prefix of
  entries at or before the cutoff, unless every entry is at or before the cutoff, in
  which case it evicts nothing. With timestamps in non-decreasing order and at least one
  entry after the cutoff, every remaining entry is after the cutoff and every evicted one
  is not.
\<close>

lemma pruneScan_takeWhile:
  "pruneScan cutoff es i =
     (if list_all (\<lambda>e. Timestamp e \<le> cutoff) es then 0
      else i + length (takeWhile (\<lambda>e. Timestamp e \<le> cutoff) es))"
  by (induction es arbitrary: i) (auto simp add: not_less)

lemma Prune_entries:
  assumes "wellformed s" and "window s \<noteq> 0"
  shows "\<exists>s'. Prune now s = Some s' \<and> wellformed s' \<and>
           entries s' =
             (if list_all (\<lambda>e. Timestamp e \<le> now + wrap64 (- window s)) (entries s) then entries s
              else dropWhile (\<lambda>e. Timestamp e \<le> now + wrap64 (- window s)) (entries s))"
proof -
  let ?stale = "\<lambda>e. Timestamp e \<le> now + wrap64 (- window s)"
  let ?k = "pruneScan (now + wrap64 (- window s)) (entries s) 0"
  have c: "coherent s" and len: "length (entries s) \<le> 100000"
    using assms(1) by (simp_all add: wellformed_def maxEntries_def)
  then have l: "length (entries s) < 2 ^ 62" by simp
  show ?thesis
  proof (cases "?k > 0")
    case False
    then have k0: "?k = 0" by simp
    have "Prune now s = Some s"
      using assms(2) k0 by (simp add: Prune_def Let_def)
    moreover have "\<not> list_all ?stale (entries s) \<Longrightarrow> dropWhile ?stale (entries s) = entries s"
    proof -
      assume "\<not> list_all ?stale (entries s)"
      then have "length (takeWhile ?stale (entries s)) = 0"
        using k0 by (simp add: pruneScan_takeWhile)
      then show ?thesis
        by (simp add: dropWhile_eq_drop)
    qed
    ultimately show ?thesis using assms(1) by auto
  next
    case True
    then have fresh: "\<not> list_all ?stale (entries s)"
      and k: "?k = length (takeWhile ?stale (entries s))"
      by (simp_all add: pruneScan_takeWhile split: if_splits)
    have kle: "?k \<le> length (entries s)"
      using k length_takeWhile_le [of ?stale "entries s"] by simp
    from pruneOldest_coherent [OF c l, of "int ?k"] obtain s' where
      p: "pruneOldest (int ?k) s = Some s'" and c': "coherent s'" and
      e': "entries s' = (if 0 < int ?k \<and> int ?k \<le> int (length (entries s))
                         then drop (nat (int ?k)) (entries s) else entries s)"
      by blast
    have e: "entries s' = dropWhile ?stale (entries s)"
      using e' True kle k by (simp add: dropWhile_eq_drop)
    have "length (entries s') \<le> length (entries s)"
      using e by (simp add: dropWhile_eq_drop)
    then have "wellformed s'" using c' len by (simp add: wellformed_def maxEntries_def)
    moreover have "Prune now s = Some s'"
      using assms(2) True p by (simp add: Prune_def Let_def)
    ultimately show ?thesis using fresh e by simp
  qed
qed

lemma Prune_some_fresh:
  assumes "wellformed s" and "window s \<noteq> 0" and "sorted (map Timestamp (entries s))"
    and "\<not> list_all (\<lambda>e. Timestamp e \<le> now + wrap64 (- window s)) (entries s)"
  shows "\<exists>s'. Prune now s = Some s' \<and>
           (\<forall>e \<in> set (entries s'). now + wrap64 (- window s) < Timestamp e) \<and>
           (\<exists>evicted. entries s = evicted @ entries s' \<and>
              (\<forall>e \<in> set evicted. Timestamp e \<le> now + wrap64 (- window s)))"
proof -
  let ?stale = "\<lambda>e. Timestamp e \<le> now + wrap64 (- window s)"
  from Prune_entries [OF assms(1,2), of now] assms(4) obtain s' where
    p: "Prune now s = Some s'" and e: "entries s' = dropWhile ?stale (entries s)"
    by auto
  have split: "entries s = takeWhile ?stale (entries s) @ entries s'"
    using e by simp
  have ev: "\<forall>x \<in> set (takeWhile ?stale (entries s)). Timestamp x \<le> now + wrap64 (- window s)"
    by (auto dest: set_takeWhileD)
  have "\<forall>x \<in> set (entries s'). now + wrap64 (- window s) < Timestamp x"
  proof (cases "entries s'")
    case Nil
    then show ?thesis by simp
  next
    case (Cons y ys)
    then have "\<not> ?stale y"
      using e hd_dropWhile [of ?stale "entries s"] by (metis list.sel(1) list.distinct(1))
    moreover have "sorted (map Timestamp (entries s'))"
      using assms(3) split by (metis map_append sorted_append)
    then have "\<forall>x \<in> set ys. Timestamp y \<le> Timestamp x"
      using Cons by simp
    ultimately show ?thesis using Cons by auto
  qed
  then show ?thesis using p split ev by blast
qed

subsection \<open>Error rates\<close>

text \<open>
  C2 fails on the code. For a store holding one request with status 600,
  \<open>GetErrorRates\<close> reports no 5xx response, while the per-host, per-IP and per-path
  variants report 100 percent: their test for 5xx is \<open>status >= 500\<close> without the upper
  bound \<open>status < 600\<close> that \<open>GetErrorRates\<close> has.
\<close>

theorem error_rates_status_600:
  "map Status (entries status600) = [600] \<and>
   GetErrorRates status600 = (0, 0) \<and>
   GetErrorRatesForHost ''a.com'' status600 = \<lparr>Rate4xx = 0, Rate5xx = 100\<rparr> \<and>
   GetErrorRatesForIP ''1.1.1.1'' status600 = \<lparr>Rate4xx = 0, Rate5xx = 100\<rparr> \<and>
   GetErrorRatesForPath ''/x'' status600 = \<lparr>Rate4xx = 0, Rate5xx = 100\<rparr>"
  by code_simp

end
